theory Spec2Isabelle
  imports Complex_Main
begin

section \<open>The Mastodon timeline client (src/services/mastodon.ts)\<close>

text \<open>
  The class \<^verbatim>\<open>MastodonService\<close> talks to a remote server through \<^verbatim>\<open>fetch\<close>, waits with
  \<^verbatim>\<open>setTimeout\<close>, reads the clock with \<^verbatim>\<open>Date.now()\<close> and draws jitter from
  \<^verbatim>\<open>Math.random()\<close>. The embedding threads a trace of events through every method: each
  effect appends one event, and whatever the outside world answers (the HTTP response,
  the clock, the random draw) is a function of the trace so far, supplied by an
  environment. A theorem that quantifies over the environment therefore covers every
  behaviour of server, network, clock and random source.
\<close>

subsection \<open>JavaScript values\<close>

text \<open>
  A JavaScript number is a double. Every integer of magnitude up to \<open>2 ^ 53\<close> is a double,
  and a product of two of them that stays in this range is computed exactly. The
  embedding follows a number as long as it is such an integer (\<open>Num\<close>) or \<^verbatim>\<open>NaN\<close>; a
  number beyond the range is \<open>Inexact\<close>: it is the double nearest to some integer, or an
  infinity, and the embedding does not tell which. \<open>exact n\<close> is the number for the
  integer \<open>n\<close>.
\<close>

datatype jsnum = NaN | Num int | Inexact

definition exact :: "int \<Rightarrow> jsnum" where
  "exact n = (if \<bar>n\<bar> \<le> 2 ^ 53 then Num n else Inexact)"

text \<open>The product \<^verbatim>\<open>x * 1000\<close>.\<close>

fun times_1000 :: "jsnum \<Rightarrow> jsnum" where
  "times_1000 NaN = NaN"
| "times_1000 (Num n) = exact (n * 1000)"
| "times_1000 Inexact = Inexact"

text \<open>A \<^verbatim>\<open>Date\<close>: milliseconds since the epoch, \<open>None\<close> for an invalid date. The
  comparison \<^verbatim>\<open>a < b\<close> on dates compares the numbers and is false when either is invalid.\<close>

type_synonym jsdate = "int option"

fun date_lt :: "jsdate \<Rightarrow> jsdate \<Rightarrow> bool" where
  "date_lt (Some a) (Some b) = (a < b)"
| "date_lt _ _ = False"

text \<open>Truthiness of a \<^verbatim>\<open>string | undefined | null\<close>: the empty string is falsy.\<close>

fun truthy :: "string option \<Rightarrow> bool" where
  "truthy None = False"
| "truthy (Some s) = (s \<noteq> [])"

text \<open>
  \<^verbatim>\<open>n.toString()\<close> for a whole number \<open>n\<close> below \<open>10 ^ 21\<close>: its decimal digits. (From
  \<open>10 ^ 21\<close> on JavaScript writes a number with an exponent, which this function does
  not follow.) The numbers the program turns into text are the page limit, which is 40
  in every call the repository makes, and the status of a response.
\<close>

fun toString :: "nat \<Rightarrow> string" where
  "toString n =
     (if n < 10 then [''0123456789'' ! n]
      else toString (n div 10) @ [''0123456789'' ! (n mod 10)])"

text \<open>
  \<^verbatim>\<open>parseInt(s)\<close> with no radix: leading white space is skipped, a sign is read, a
  prefix \<^verbatim>\<open>0x\<close> selects base 16, then the longest run of digits is read; no digit at all
  gives \<^verbatim>\<open>NaN\<close>. The only string the program parses is the value of a response header.
  A header value is a byte string, and reaches the program with one character for each
  byte, so a list of 8-bit characters holds it; of the white space \<^verbatim>\<open>parseInt\<close> skips,
  seven characters lie below U+0100: tab, line feed, vertical tab, form feed, carriage
  return, space and the no-break space U+00A0.
\<close>

definition is_space :: "char \<Rightarrow> bool" where
  "is_space c =
     (c \<in> set [CHR 0x09, CHR 0x0A, CHR 0x0B, CHR 0x0C, CHR 0x0D, CHR '' '', CHR 0xA0])"

text \<open>The value of a digit in base 16 or less; 99 for any other character.\<close>

definition digit_val :: "char \<Rightarrow> nat" where
  "digit_val c =
     (case map_of
        [(CHR ''0'', 0), (CHR ''1'', 1), (CHR ''2'', 2), (CHR ''3'', 3), (CHR ''4'', 4),
         (CHR ''5'', 5), (CHR ''6'', 6), (CHR ''7'', 7), (CHR ''8'', 8), (CHR ''9'', 9),
         (CHR ''a'', 10), (CHR ''b'', 11), (CHR ''c'', 12), (CHR ''d'', 13), (CHR ''e'', 14),
         (CHR ''f'', 15), (CHR ''A'', 10), (CHR ''B'', 11), (CHR ''C'', 12), (CHR ''D'', 13),
         (CHR ''E'', 14), (CHR ''F'', 15)] c of
        Some d \<Rightarrow> d
      | None \<Rightarrow> 99)"

definition read_digits :: "nat \<Rightarrow> string \<Rightarrow> nat list" where
  "read_digits radix s = map digit_val (takeWhile (\<lambda>c. digit_val c < radix) s)"

definition parseInt :: "string \<Rightarrow> jsnum" where
  "parseInt s =
     (let s1 = dropWhile is_space s;
          (sign, s2) = (case s1 of
                          c # cs \<Rightarrow> if c = CHR ''-'' then (- 1 :: int, cs)
                                    else if c = CHR ''+'' then (1, cs) else (1, s1)
                        | [] \<Rightarrow> (1, s1));
          (radix, s3) = (case s2 of
                           a # b # cs \<Rightarrow> if a = CHR ''0'' \<and> (b = CHR ''x'' \<or> b = CHR ''X'')
                                         then (16 :: nat, cs) else (10, s2)
                         | _ \<Rightarrow> (10, s2));
          ds = read_digits radix s3
      in if ds = [] then NaN
         else exact (sign * int (foldl (\<lambda>a d. a * radix + d) 0 ds)))"

subsection \<open>Data (src/types.ts)\<close>

text \<open>
  A status as the crawler reads it: its \<^verbatim>\<open>id\<close> (field \<open>id_str\<close>), the date parsed from \<^verbatim>\<open>created_at\<close>
  (\<^verbatim>\<open>new Date(s.created_at)\<close>), whether its \<^verbatim>\<open>reblog\<close> property is truthy, and its
  content.
\<close>

record mstatus =
  id_str :: string
  created_at :: jsdate
  reblog :: bool
  content :: string

record service =
  "instance" :: string
  token :: "string option"

subsection \<open>Requests, responses, events\<close>

record request =
  url :: string
  searchParams :: "(string \<times> string) list"
  headers :: "(string \<times> string) list"

text \<open>
  The body of a response: not JSON at all, the JSON value \<^verbatim>\<open>null\<close>, or any other JSON
  value. Such a value is seen through its property \<^verbatim>\<open>error\<close> and through the unchecked
  cast to the type \<^verbatim>\<open>T\<close> the caller asked for. The first argument of \<open>Parsed\<close> is the
  text of the property \<^verbatim>\<open>error\<close> when the value has one that is a string, and \<open>None\<close>
  when it has none (reading it gives \<^verbatim>\<open>undefined\<close>). The value \<^verbatim>\<open>null\<close> stands apart
  because reading a property of it throws.
\<close>

datatype 'a body = Unparseable | JsonNull | Parsed "string option" 'a

record 'a response =
  status :: nat
  retryAfter :: "string option"
  body :: "'a body"

definition ok :: "'a response \<Rightarrow> bool" where
  "ok r = (200 \<le> status r \<and> status r \<le> 299)"

text \<open>\<^verbatim>\<open>fetch\<close> resolves with a response or rejects (a transport failure).\<close>

datatype 'a outcome = Rejected | Response "'a response"

text \<open>
  What \<^verbatim>\<open>console.warn\<close> is called with: the text of line 41, which holds the wait
  \<^verbatim>\<open>waitTime\<close>; the text of line 123; the text of line 262.
\<close>

datatype warning = RateLimitHit jsnum | TimeBudgetExceeded | PermissionFallback

datatype 'a event =
    Fetch request "'a outcome"
  | Sleep jsnum
  | Warn warning
  | Clock int
  | Progress nat

text \<open>
  The environment: the outcome of \<^verbatim>\<open>fetch\<close> for a request, the value of
  \<^verbatim>\<open>Date.now()\<close> and the value of \<^verbatim>\<open>Math.random()\<close> (a rational; in the source it
  lies in the interval from 0 to 1), each as a function of the events so far; and the
  URL parser of the platform: \<open>parse_url s\<close> is the URL that \<^verbatim>\<open>new URL(s)\<close> makes of the
  string \<open>s\<close>, in its serialised form, or \<open>None\<close> where \<^verbatim>\<open>new URL(s)\<close> throws.
\<close>

record 'a env =
  respond :: "'a event list \<Rightarrow> request \<Rightarrow> 'a outcome"
  now :: "'a event list \<Rightarrow> int"
  random :: "'a event list \<Rightarrow> rat"
  parse_url :: "string \<Rightarrow> string option"

text \<open>
  What a method throws: an \<^verbatim>\<open>Error\<close> with its message and its \<^verbatim>\<open>status\<close> property
  (absent unless set); the \<^verbatim>\<open>TypeError\<close> of a rejected \<^verbatim>\<open>fetch\<close>; the
  \<^verbatim>\<open>SyntaxError\<close> of \<^verbatim>\<open>response.json()\<close> on a body that is not JSON; the
  \<^verbatim>\<open>TypeError\<close> of \<^verbatim>\<open>new URL\<close> on a string that is no URL, and of reading a property
  of \<^verbatim>\<open>null\<close>. Only the first has a property \<^verbatim>\<open>status\<close>.
\<close>

datatype error = Error string "nat option" | NetworkFailure | JsonSyntaxError | TypeError

fun error_status :: "error \<Rightarrow> nat option" where
  "error_status (Error m st) = st"
| "error_status _ = None"

subsection \<open>The request layer: fetchApi\<close>

text \<open>
  The string \<^verbatim>\<open>fetchApi\<close> passes to \<^verbatim>\<open>new URL\<close>, and the request it builds from the
  parsed URL \<open>u\<close>: that URL, the query parameters appended to it, in the order of
  \<^verbatim>\<open>Object.keys(params)\<close>, and the headers, with \<^verbatim>\<open>Authorization\<close> only when
  \<^verbatim>\<open>this.token && useAuth\<close>.
\<close>

definition endpoint_url :: "service \<Rightarrow> string \<Rightarrow> string" where
  "endpoint_url svc endpoint = ''https://'' @ instance svc @ ''/api/v1/'' @ endpoint"

definition make_request :: "string \<Rightarrow> service \<Rightarrow> (string \<times> string) list \<Rightarrow> bool \<Rightarrow> request" where
  "make_request u svc params useAuth =
     \<lparr> url = u,
       searchParams = params,
       headers = (''Content-Type'', ''application/json'') #
         (case token svc of
            Some t \<Rightarrow> if t \<noteq> [] \<and> useAuth then [(''Authorization'', ''Bearer '' @ t)] else []
          | None \<Rightarrow> []) \<rparr>"

text \<open>
  \<^verbatim>\<open>retryAfter ? parseInt(retryAfter) * 1000 : Math.pow(2, retryCount) * 1000\<close>, where
  \<^verbatim>\<open>retryAfter\<close> is the header value or \<^verbatim>\<open>null\<close>.
\<close>

definition waitTime :: "'a response \<Rightarrow> nat \<Rightarrow> jsnum" where
  "waitTime r retryCount =
     (case retryAfter r of
        Some h \<Rightarrow> if h \<noteq> [] then times_1000 (parseInt h) else exact (2 ^ retryCount * 1000)
      | None \<Rightarrow> exact (2 ^ retryCount * 1000))"

text \<open>
  What is thrown for a response that is not ok (lines 46 to 55). When the body is the
  JSON value \<^verbatim>\<open>null\<close>, reading \<^verbatim>\<open>errorData.error\<close> throws a \<^verbatim>\<open>TypeError\<close>, and the
  lines that build the error and set its status are not reached. Otherwise an
  \<^verbatim>\<open>Error\<close> is thrown with the property \<^verbatim>\<open>status\<close> set; its message is the \<^verbatim>\<open>error\<close>
  property of the body when that is truthy, \<^verbatim>\<open>Unknown error\<close> when the body is not JSON,
  and the text with the status otherwise.
\<close>

definition http_error :: "'a response \<Rightarrow> error" where
  "http_error r =
     (let generic = ''HTTP error! status: '' @ toString (status r)
      in case body r of
           Unparseable \<Rightarrow> Error ''Unknown error'' (Some (status r))
         | JsonNull \<Rightarrow> TypeError
         | Parsed (Some m) v \<Rightarrow> Error (if m \<noteq> [] then m else generic) (Some (status r))
         | Parsed None v \<Rightarrow> Error generic (Some (status r)))"

text \<open>
  \<^verbatim>\<open>fetchApi\<close> (lines 16 to 58). The result of \<^verbatim>\<open>response.json()\<close> is returned as it
  is: \<open>None\<close> is the JSON value \<^verbatim>\<open>null\<close>. The recursion is on \<^verbatim>\<open>retryCount\<close>, which
  grows up to 2.
\<close>

function fetchApi ::
  "'a env \<Rightarrow> service \<Rightarrow> string \<Rightarrow> (string \<times> string) list \<Rightarrow> bool \<Rightarrow> nat \<Rightarrow> 'a event list
     \<Rightarrow> (error + 'a option) \<times> 'a event list" where
  "fetchApi env svc endpoint params useAuth retryCount tr =
     (case parse_url env (endpoint_url svc endpoint) of
        None \<Rightarrow> (Inl TypeError, tr)
      | Some u \<Rightarrow>
          (let req = make_request u svc params useAuth;
               out = respond env tr req;
               tr1 = tr @ [Fetch req out]
           in case out of
                Rejected \<Rightarrow> (Inl NetworkFailure, tr1)
              | Response r \<Rightarrow>
                  if status r = 429 \<and> retryCount < 2 then
                    fetchApi env svc endpoint params useAuth (retryCount + 1)
                      (tr1 @ [Warn (RateLimitHit (waitTime r retryCount)),
                              Sleep (waitTime r retryCount)])
                  else if \<not> ok r then (Inl (http_error r), tr1)
                  else (case body r of
                          Unparseable \<Rightarrow> (Inl JsonSyntaxError, tr1)
                        | JsonNull \<Rightarrow> (Inr None, tr1)
                        | Parsed e v \<Rightarrow> (Inr (Some v), tr1))))"
  by pat_completeness auto
termination
  by (relation "measure (\<lambda>(env, svc, endpoint, params, useAuth, retryCount, tr). 2 - retryCount)")
     auto

text \<open>
  The file holds a second copy of \<^verbatim>\<open>MastodonService\<close> (from line 185). Its
  \<^verbatim>\<open>fetchApi\<close> has no \<^verbatim>\<open>retryCount\<close> and no branch for status 429; its
  \<^verbatim>\<open>getStatusesPage\<close> warns before falling back; its loop has the variable
  \<^verbatim>\<open>hasMore\<close>, no time budget, no jitter delay and the cap 10000. Its definitions carry
  the suffix 2 and follow the definition of the first copy each time.
\<close>

definition fetchApi2 ::
  "'a env \<Rightarrow> service \<Rightarrow> string \<Rightarrow> (string \<times> string) list \<Rightarrow> bool \<Rightarrow> 'a event list
     \<Rightarrow> (error + 'a option) \<times> 'a event list" where
  "fetchApi2 env svc endpoint params useAuth tr =
     (case parse_url env (endpoint_url svc endpoint) of
        None \<Rightarrow> (Inl TypeError, tr)
      | Some u \<Rightarrow>
          (let req = make_request u svc params useAuth;
               out = respond env tr req;
               tr1 = tr @ [Fetch req out]
           in case out of
                Rejected \<Rightarrow> (Inl NetworkFailure, tr1)
              | Response r \<Rightarrow>
                  if \<not> ok r then (Inl (http_error r), tr1)
                  else (case body r of
                          Unparseable \<Rightarrow> (Inl JsonSyntaxError, tr1)
                        | JsonNull \<Rightarrow> (Inr None, tr1)
                        | Parsed e v \<Rightarrow> (Inr (Some v), tr1))))"

subsection \<open>One page with permission fallback: getStatusesPage\<close>

text \<open>The result \<^verbatim>\<open>{ statuses, fellBack }\<close> is the pair \<open>(statuses, fellBack)\<close>.\<close>

text \<open>The query parameters: \<^verbatim>\<open>limit\<close> always, \<^verbatim>\<open>max_id\<close> when the cursor is truthy.\<close>

definition page_params :: "string option \<Rightarrow> nat \<Rightarrow> (string \<times> string) list" where
  "page_params max_id limit =
     (''limit'', toString limit) #
       (case max_id of Some m \<Rightarrow> if m \<noteq> [] then [(''max_id'', m)] else [] | None \<Rightarrow> [])"

definition getStatusesPage ::
  "'a env \<Rightarrow> service \<Rightarrow> string \<Rightarrow> string option \<Rightarrow> nat \<Rightarrow> 'a event list
     \<Rightarrow> (error + 'a option \<times> bool) \<times> 'a event list" where
  "getStatusesPage env svc accountId max_id limit tr =
     (let params = page_params max_id limit;
          endpoint = ''accounts/'' @ accountId @ ''/statuses''
      in case fetchApi env svc endpoint params True 0 tr of
           (Inr statuses, tr1) \<Rightarrow> (Inr (statuses, False), tr1)
         | (Inl err, tr1) \<Rightarrow>
             if error_status err = Some 403 \<or> error_status err = Some 401 then
               (case fetchApi env svc endpoint params False 0 tr1 of
                  (Inr statuses, tr2) \<Rightarrow> (Inr (statuses, True), tr2)
                | (Inl err2, tr2) \<Rightarrow> (Inl err2, tr2))
             else (Inl err, tr1))"

text \<open>The second copy logs a warning before the unauthenticated request (line 262).\<close>

definition getStatusesPage2 ::
  "'a env \<Rightarrow> service \<Rightarrow> string \<Rightarrow> string option \<Rightarrow> nat \<Rightarrow> 'a event list
     \<Rightarrow> (error + 'a option \<times> bool) \<times> 'a event list" where
  "getStatusesPage2 env svc accountId max_id limit tr =
     (let params = page_params max_id limit;
          endpoint = ''accounts/'' @ accountId @ ''/statuses''
      in case fetchApi2 env svc endpoint params True tr of
           (Inr statuses, tr1) \<Rightarrow> (Inr (statuses, False), tr1)
         | (Inl err, tr1) \<Rightarrow>
             if error_status err = Some 403 \<or> error_status err = Some 401 then
               (case fetchApi2 env svc endpoint params False (tr1 @ [Warn PermissionFallback]) of
                  (Inr statuses, tr2) \<Rightarrow> (Inr (statuses, True), tr2)
                | (Inl err2, tr2) \<Rightarrow> (Inl err2, tr2))
             else (Inl err, tr1))"

subsection \<open>The crawler: getStatusesUntil\<close>

text \<open>The local variables of \<^verbatim>\<open>getStatusesUntil\<close> that the loop updates.\<close>

record session =
  allFilteredStatuses :: "mstatus list"
  maxId :: "string option"
  reachedThresholdVar :: bool
  totalFetched :: nat
  wasFellBack :: bool

record crawl_result =
  statuses :: "mstatus list"
  lastId :: "string option"
  reachedThreshold :: bool
  fellBack :: bool

text \<open>
  The \<^verbatim>\<open>while (!reachedThreshold)\<close> loop. Each \<^verbatim>\<open>break\<close> returns the variables as they
  are. \<open>onProgress\<close> tells whether a callback was passed; calling it is the event
  \<open>Progress\<close>. When the page is \<^verbatim>\<open>null\<close>, reading \<^verbatim>\<open>batch.length\<close> throws. A page that
  does not end the loop has at least 40 statuses and leaves \<open>totalFetched\<close> at 5000 or
  less, so the loop is total.
\<close>

function crawl_loop ::
  "mstatus list env \<Rightarrow> service \<Rightarrow> string \<Rightarrow> jsdate \<Rightarrow> bool \<Rightarrow> int \<Rightarrow> session
     \<Rightarrow> mstatus list event list \<Rightarrow> (error + session) \<times> mstatus list event list" where
  "crawl_loop env svc accountId untilDate onProgress startTime s tr =
     (if reachedThresholdVar s then (Inr s, tr)
      else
        let t = now env tr; tr0 = tr @ [Clock t] in
        if t - startTime > 10000 then
          (Inr s, tr0 @ [Warn TimeBudgetExceeded])
        else
          case getStatusesPage env svc accountId (maxId s) 40 tr0 of
            (Inl err, tr1) \<Rightarrow> (Inl err, tr1)
          | (Inr (page, fb), tr1) \<Rightarrow>
              let s1 = (if fb then s\<lparr>wasFellBack := True\<rparr> else s) in
              (case page of
                 None \<Rightarrow> (Inl TypeError, tr1)
               | Some batch \<Rightarrow>
                  if length batch = 0 then (Inr s1, tr1)
                  else
                    let s2 = s1\<lparr>maxId := Some (id_str (last batch))\<rparr>;
                        s3 = s2\<lparr>totalFetched := totalFetched s2 + length batch\<rparr>;
                        originalPosts = filter (\<lambda>p. \<not> reblog p) batch;
                        s4 = s3\<lparr>allFilteredStatuses := allFilteredStatuses s3 @ originalPosts\<rparr>;
                        oldestInBatch = created_at (last batch);
                        s5 = (if date_lt oldestInBatch untilDate
                              then s4\<lparr>reachedThresholdVar := True\<rparr> else s4);
                        tr2 = (if onProgress
                               then tr1 @ [Progress (length (allFilteredStatuses s5))] else tr1)
                    in if length batch < 40 then (Inr s5, tr2)
                       else if totalFetched s5 > 5000 then (Inr s5, tr2)
                       else crawl_loop env svc accountId untilDate onProgress startTime s5
                              (tr2 @ [Sleep (Num (\<lfloor>random env tr2 * 300\<rfloor> + 200))])))"
  by pat_completeness auto
termination
  by (relation "measure (\<lambda>(env, svc, accountId, untilDate, onProgress, startTime, s, tr).
                   5001 - totalFetched s)")
     (auto split: if_splits)

definition getStatusesUntil ::
  "mstatus list env \<Rightarrow> service \<Rightarrow> string \<Rightarrow> jsdate \<Rightarrow> string option \<Rightarrow> bool
     \<Rightarrow> mstatus list event list \<Rightarrow> (error + crawl_result) \<times> mstatus list event list" where
  "getStatusesUntil env svc accountId untilDate startId onProgress tr =
     (let s0 = \<lparr>allFilteredStatuses = [], maxId = startId, reachedThresholdVar = False,
                totalFetched = 0, wasFellBack = False\<rparr>;
          startTime = now env tr;
          tr0 = tr @ [Clock startTime]
      in case crawl_loop env svc accountId untilDate onProgress startTime s0 tr0 of
           (Inl err, tr1) \<Rightarrow> (Inl err, tr1)
         | (Inr s, tr1) \<Rightarrow>
             (Inr \<lparr>statuses = allFilteredStatuses s, lastId = maxId s,
                   reachedThreshold = reachedThresholdVar s, fellBack = wasFellBack s\<rparr>, tr1))"

record session2 = session +
  hasMore :: bool

text \<open>
  The \<^verbatim>\<open>while (hasMore && !reachedThreshold)\<close> loop. A page that does not end the loop is
  not empty and leaves \<open>totalFetched\<close> at 10000 or less.
\<close>

function crawl_loop2 ::
  "mstatus list env \<Rightarrow> service \<Rightarrow> string \<Rightarrow> jsdate \<Rightarrow> bool \<Rightarrow> session2
     \<Rightarrow> mstatus list event list \<Rightarrow> (error + session2) \<times> mstatus list event list" where
  "crawl_loop2 env svc accountId untilDate onProgress s tr =
     (if \<not> (hasMore s \<and> \<not> reachedThresholdVar s) then (Inr s, tr)
      else
        case getStatusesPage2 env svc accountId (maxId s) 40 tr of
          (Inl err, tr1) \<Rightarrow> (Inl err, tr1)
        | (Inr (page, fb), tr1) \<Rightarrow>
            let s1 = (if fb then s\<lparr>wasFellBack := True\<rparr> else s) in
            (case page of
               None \<Rightarrow> (Inl TypeError, tr1)
             | Some batch \<Rightarrow>
                if length batch = 0 then (Inr (s1\<lparr>hasMore := False\<rparr>), tr1)
                else
                  let s2 = s1\<lparr>maxId := Some (id_str (last batch))\<rparr>;
                      s3 = s2\<lparr>totalFetched := totalFetched s2 + length batch\<rparr>;
                      originalPosts = filter (\<lambda>p. \<not> reblog p) batch;
                      s4 = s3\<lparr>allFilteredStatuses := allFilteredStatuses s3 @ originalPosts\<rparr>;
                      oldestInBatch = created_at (last batch);
                      s5 = (if date_lt oldestInBatch untilDate
                            then s4\<lparr>reachedThresholdVar := True\<rparr> else s4);
                      tr2 = (if onProgress
                             then tr1 @ [Progress (length (allFilteredStatuses s5))] else tr1);
                      s6 = (if length batch < 40 then s5\<lparr>hasMore := False\<rparr> else s5)
                  in if totalFetched s6 > 10000 then (Inr s6, tr2)
                     else crawl_loop2 env svc accountId untilDate onProgress s6 tr2))"
  by pat_completeness auto
termination
  by (relation "measure (\<lambda>(env, svc, accountId, untilDate, onProgress, s, tr).
                   10001 - totalFetched s)")
     (auto split: if_splits simp flip: length_greater_0_conv)

definition getStatusesUntil2 ::
  "mstatus list env \<Rightarrow> service \<Rightarrow> string \<Rightarrow> jsdate \<Rightarrow> string option \<Rightarrow> bool
     \<Rightarrow> mstatus list event list \<Rightarrow> (error + crawl_result) \<times> mstatus list event list" where
  "getStatusesUntil2 env svc accountId untilDate startId onProgress tr =
     (let s0 = \<lparr>allFilteredStatuses = [], maxId = startId, reachedThresholdVar = False,
                totalFetched = 0, wasFellBack = False, hasMore = True\<rparr>
      in case crawl_loop2 env svc accountId untilDate onProgress s0 tr of
           (Inl err, tr1) \<Rightarrow> (Inl err, tr1)
         | (Inr s, tr1) \<Rightarrow>
             (Inr \<lparr>statuses = allFilteredStatuses s, lastId = maxId s,
                   reachedThreshold = reachedThresholdVar s, fellBack = wasFellBack s\<rparr>, tr1))"

subsection \<open>verifyCredentials\<close>

definition verifyCredentials ::
  "'a env \<Rightarrow> service \<Rightarrow> 'a event list \<Rightarrow> (error + 'a option) \<times> 'a event list" where
  "verifyCredentials env svc tr =
     (if \<not> truthy (token svc) then (Inl (Error ''Token required for verifyCredentials'' None), tr)
      else fetchApi env svc ''accounts/verify_credentials'' [] True 0 tr)"

definition verifyCredentials2 ::
  "'a env \<Rightarrow> service \<Rightarrow> 'a event list \<Rightarrow> (error + 'a option) \<times> 'a event list" where
  "verifyCredentials2 env svc tr =
     (if \<not> truthy (token svc) then (Inl (Error ''Token required for verifyCredentials'' None), tr)
      else fetchApi2 env svc ''accounts/verify_credentials'' [] True tr)"

section \<open>Reading a trace\<close>

text \<open>
  A page is the body of a successful response (status 200 to 299, body parsed): exactly
  what \<^verbatim>\<open>fetchApi\<close> returns to its caller.
\<close>

fun page_of :: "'a event \<Rightarrow> 'a option" where
  "page_of (Fetch req (Response r)) =
     (if ok r then (case body r of Parsed e v \<Rightarrow> Some v | _ \<Rightarrow> None) else None)"
| "page_of _ = None"

fun request_of :: "'a event \<Rightarrow> request option" where
  "request_of (Fetch req out) = Some req"
| "request_of _ = None"

fun sleep_of :: "'a event \<Rightarrow> jsnum option" where
  "sleep_of (Sleep w) = Some w"
| "sleep_of _ = None"

text \<open>The bodies delivered by successful responses, the requests sent and the delays
  waited, each in the order of the trace.\<close>

definition pages :: "'a event list \<Rightarrow> 'a list" where
  "pages evs = List.map_filter page_of evs"

definition requests :: "'a event list \<Rightarrow> request list" where
  "requests evs = List.map_filter request_of evs"

definition sleeps :: "'a event list \<Rightarrow> jsnum list" where
  "sleeps evs = List.map_filter sleep_of evs"

text \<open>A response that makes \<^verbatim>\<open>getStatusesPage\<close> fall back: status 401 or 403.\<close>

fun denied :: "'a event \<Rightarrow> bool" where
  "denied (Fetch req (Response r)) = (status r = 401 \<or> status r = 403)"
| "denied _ = False"

subsection \<open>The shape of the events of one call\<close>

text \<open>
  The events of one call of the request layer for the request \<open>req\<close>: answers that are
  no page and no denial, with at most \<open>m\<close> earlier requests, all of them \<open>req\<close>, then
  the last request, whose answer decides the result.
\<close>

definition api_run :: "request \<Rightarrow> nat \<Rightarrow> 'a event list \<Rightarrow> error + 'a option \<Rightarrow> bool" where
  "api_run req m evs res =
     (\<exists>pre out. evs = pre @ [Fetch req out] \<and> pages pre = [] \<and> (\<forall>x\<in>set pre. \<not> denied x)
        \<and> set (requests pre) \<subseteq> {req} \<and> length (requests pre) \<le> m
        \<and> (case res of
              Inr (Some v) \<Rightarrow> page_of (Fetch req out) = Some v \<and> \<not> denied (Fetch req out)
            | Inr None \<Rightarrow> page_of (Fetch req out) = None \<and> \<not> denied (Fetch req out)
            | Inl e \<Rightarrow> page_of (Fetch req out) = None
                \<and> (error_status e = Some 403 \<or> error_status e = Some 401
                      \<longrightarrow> denied (Fetch req out))))"

text \<open>
  The events of one call of \<^verbatim>\<open>getStatusesPage\<close>: requests from the set \<open>R\<close>, at most
  \<open>m\<close> of them; a page only as the last event, and only when the call succeeds; the
  flag \<open>fellBack\<close> tells whether an answer was a denial.
\<close>

definition page_run ::
  "request set \<Rightarrow> nat \<Rightarrow> 'a event list \<Rightarrow> error + 'a option \<times> bool \<Rightarrow> bool" where
  "page_run R m evs res =
     (set (requests evs) \<subseteq> R \<and> length (requests evs) \<le> m
      \<and> (case res of
            Inl err \<Rightarrow> pages evs = []
          | Inr (None, fb) \<Rightarrow> pages evs = []
          | Inr (Some batch, fb) \<Rightarrow>
              (\<exists>pre e. evs = pre @ [e] \<and> pages pre = [] \<and> page_of e = Some batch)
              \<and> fb = (\<exists>x\<in>set evs. denied x)))"

text \<open>The two requests \<^verbatim>\<open>getStatusesPage\<close> can send for a cursor: with and without
  authentication; none when the URL does not parse.\<close>

definition page_requests ::
  "'a env \<Rightarrow> service \<Rightarrow> string \<Rightarrow> string option \<Rightarrow> nat \<Rightarrow> request set" where
  "page_requests env svc accountId c limit =
     (case parse_url env (endpoint_url svc (''accounts/'' @ accountId @ ''/statuses'')) of
        None \<Rightarrow> {}
      | Some u \<Rightarrow> {make_request u svc (page_params c limit) True,
                   make_request u svc (page_params c limit) False})"

subsection \<open>The exchange of one call\<close>

text \<open>The requests sent, each with its answer, in the order of the trace.\<close>

fun fetch_of :: "'a event \<Rightarrow> (request \<times> 'a outcome) option" where
  "fetch_of (Fetch req out) = Some (req, out)"
| "fetch_of _ = None"

definition fetches :: "'a event list \<Rightarrow> (request \<times> 'a outcome) list" where
  "fetches evs = List.map_filter fetch_of evs"

text \<open>An answer with status 429; an answer with status 401 or 403; an answer whose body
  is the JSON value \<^verbatim>\<open>null\<close>.\<close>

fun is_429 :: "'a outcome \<Rightarrow> bool" where
  "is_429 (Response r) = (status r = 429)"
| "is_429 Rejected = False"

fun refused :: "'a outcome \<Rightarrow> bool" where
  "refused (Response r) = (status r = 401 \<or> status r = 403)"
| "refused Rejected = False"

fun null_body :: "'a outcome \<Rightarrow> bool" where
  "null_body (Response r) = (body r = JsonNull)"
| "null_body Rejected = False"

text \<open>
  What the request layer makes of an answer that it does not retry (line 34 and lines
  46 to 57): a rejected \<^verbatim>\<open>fetch\<close> throws, a response that is not ok throws the error of
  \<open>http_error\<close>, and the body of an ok response is parsed and returned.
\<close>

definition settle :: "'a outcome \<Rightarrow> error + 'a option" where
  "settle out =
     (case out of
        Rejected \<Rightarrow> Inl NetworkFailure
      | Response r \<Rightarrow>
          if \<not> ok r then Inl (http_error r)
          else (case body r of
                  Unparseable \<Rightarrow> Inl JsonSyntaxError
                | JsonNull \<Rightarrow> Inr None
                | Parsed e v \<Rightarrow> Inr (Some v)))"

subsection \<open>One iteration of the loop\<close>

text \<open>
  The local variables after a page: \<open>note_fallback\<close> is the line
  \<^verbatim>\<open>if (fellBack) wasFellBack = true\<close>, \<open>process_batch\<close> the updates for a non-empty
  batch, in the order of the source, and \<open>progress\<close> the call of \<^verbatim>\<open>onProgress\<close>.
\<close>

definition note_fallback :: "'z session_scheme \<Rightarrow> bool \<Rightarrow> 'z session_scheme" where
  "note_fallback s fb = (if fb then s\<lparr>wasFellBack := True\<rparr> else s)"

definition process_batch :: "jsdate \<Rightarrow> 'z session_scheme \<Rightarrow> mstatus list \<Rightarrow> bool \<Rightarrow> 'z session_scheme" where
  "process_batch untilDate s batch fb =
     (let s1 = note_fallback s fb;
          s2 = s1\<lparr>maxId := Some (id_str (last batch))\<rparr>;
          s3 = s2\<lparr>totalFetched := totalFetched s2 + length batch\<rparr>;
          s4 = s3\<lparr>allFilteredStatuses :=
                    allFilteredStatuses s3 @ filter (\<lambda>p. \<not> reblog p) batch\<rparr>
      in if date_lt (created_at (last batch)) untilDate
         then s4\<lparr>reachedThresholdVar := True\<rparr> else s4)"

definition progress :: "bool \<Rightarrow> nat \<Rightarrow> 'a event list" where
  "progress onProgress n = (if onProgress then [Progress n] else [])"

subsection \<open>What a trace must satisfy\<close>

text \<open>
  A page ends the crawl when it is short, when it brings the count \<open>n\<close> of statuses
  fetched so far above the cap, or when its oldest status is before \<open>untilDate\<close>.
  \<open>quiet_after_end\<close> reads a trace from the left, with the count and a flag \<open>h\<close> that
  is set once a page has ended the crawl: from then on no event may be a request.
  \<open>ended\<close> tells whether one of a list of pages ends the crawl.
\<close>

definition ends_crawl :: "nat \<Rightarrow> jsdate \<Rightarrow> nat \<Rightarrow> mstatus list \<Rightarrow> bool" where
  "ends_crawl cap untilDate n p =
     (length p < 40 \<or> cap < n + length p \<or> date_lt (created_at (last p)) untilDate)"

fun quiet_after_end :: "nat \<Rightarrow> jsdate \<Rightarrow> nat \<Rightarrow> bool \<Rightarrow> mstatus list event list \<Rightarrow> bool" where
  "quiet_after_end cap u n h [] = True"
| "quiet_after_end cap u n h (e # es) =
     ((h \<longrightarrow> request_of e = None) \<and>
      (case page_of e of
         None \<Rightarrow> quiet_after_end cap u n h es
       | Some p \<Rightarrow> quiet_after_end cap u (n + length p) (h \<or> ends_crawl cap u n p) es))"

fun ended :: "nat \<Rightarrow> jsdate \<Rightarrow> nat \<Rightarrow> mstatus list list \<Rightarrow> bool" where
  "ended cap u n [] = False"
| "ended cap u n (p # ps) = (ends_crawl cap u n p \<or> ended cap u (n + length p) ps)"

text \<open>
  The cursor after a list of pages: the id of the last status of the last non-empty page,
  or the cursor before them. \<open>cursor_ok\<close> reads a trace from the left and asks every
  request to be one of the two for the cursor at that point.
\<close>

definition cursor_after :: "string option \<Rightarrow> mstatus list list \<Rightarrow> string option" where
  "cursor_after c ps = foldl (\<lambda>c p. if p = [] then c else Some (id_str (last p))) c ps"

fun cursor_ok ::
  "mstatus list env \<Rightarrow> service \<Rightarrow> string \<Rightarrow> string option \<Rightarrow> mstatus list event list \<Rightarrow> bool" where
  "cursor_ok env svc acc c [] = True"
| "cursor_ok env svc acc c (e # es) =
     ((case request_of e of Some req \<Rightarrow> req \<in> page_requests env svc acc c 40 | None \<Rightarrow> True) \<and>
      cursor_ok env svc acc (cursor_after c (pages [e])) es)"

text \<open>The local variables \<open>s'\<close> after the events \<open>evs\<close>, started from \<open>s\<close>.\<close>

definition summary ::
  "jsdate \<Rightarrow> 'z session_scheme \<Rightarrow> 'z session_scheme \<Rightarrow> mstatus list event list \<Rightarrow> bool" where
  "summary u s s' evs =
     (allFilteredStatuses s' = allFilteredStatuses s @ filter (\<lambda>p. \<not> reblog p) (concat (pages evs))
      \<and> totalFetched s' = totalFetched s + length (concat (pages evs))
      \<and> maxId s' = cursor_after (maxId s) (pages evs)
      \<and> reachedThresholdVar s' =
          (reachedThresholdVar s \<or> (\<exists>p\<in>set (pages evs). p \<noteq> [] \<and> date_lt (created_at (last p)) u))
      \<and> wasFellBack s' = (wasFellBack s \<or> (\<exists>x\<in>set evs. denied x)))"

text \<open>The number of pages a loop can still fetch with \<open>n\<close> statuses counted.\<close>

definition fetch_budget :: "nat \<Rightarrow> nat \<Rightarrow> nat" where
  "fetch_budget cap n = Suc ((cap - n) div 40)"

text \<open>The second copy: the line \<^verbatim>\<open>if (batch.length < 40) hasMore = false\<close> and the
  loop condition.\<close>

definition note_short :: "session2 \<Rightarrow> mstatus list \<Rightarrow> session2" where
  "note_short s batch = (if length batch < 40 then s\<lparr>hasMore := False\<rparr> else s)"

definition running2 :: "session2 \<Rightarrow> bool" where
  "running2 s = (hasMore s \<and> \<not> reachedThresholdVar s)"

text \<open>The initial values of the local variables, and the object returned.\<close>

definition initial_session :: "string option \<Rightarrow> session" where
  "initial_session startId =
     \<lparr>allFilteredStatuses = [], maxId = startId, reachedThresholdVar = False,
      totalFetched = 0, wasFellBack = False\<rparr>"

definition initial_session2 :: "string option \<Rightarrow> session2" where
  "initial_session2 startId =
     \<lparr>allFilteredStatuses = [], maxId = startId, reachedThresholdVar = False,
      totalFetched = 0, wasFellBack = False, hasMore = True\<rparr>"

definition result_of :: "'z session_scheme \<Rightarrow> crawl_result" where
  "result_of s =
     \<lparr>statuses = allFilteredStatuses s, lastId = maxId s,
      reachedThreshold = reachedThresholdVar s, fellBack = wasFellBack s\<rparr>"

text \<open>Everything known about one call, over its own events.\<close>

definition session_facts ::
  "nat \<Rightarrow> nat \<Rightarrow> mstatus list env \<Rightarrow> service \<Rightarrow> string \<Rightarrow> jsdate \<Rightarrow> string option
     \<Rightarrow> mstatus list event list \<Rightarrow> error + crawl_result \<Rightarrow> bool" where
  "session_facts cap per env svc acc u start evs r =
     (quiet_after_end cap u 0 False evs
      \<and> cursor_ok env svc acc start evs
      \<and> length (pages evs) \<le> fetch_budget cap 0
      \<and> length (requests evs) \<le> per * fetch_budget cap 0
      \<and> (\<forall>res. r = Inr res \<longrightarrow>
            statuses res = filter (\<lambda>p. \<not> reblog p) (concat (pages evs))
          \<and> lastId res = cursor_after start (pages evs)
          \<and> reachedThreshold res =
              (\<exists>p\<in>set (pages evs). p \<noteq> [] \<and> date_lt (created_at (last p)) u)
          \<and> fellBack res = (\<exists>x\<in>set evs. denied x)))"

text \<open>
  The remote contract for \<^verbatim>\<open>max_id\<close>: a page sent in answer to a request that carries
  \<^verbatim>\<open>max_id = c\<close> holds only statuses older than \<open>c\<close>, for a given order on ids.
\<close>

fun honours_max_id :: "(string \<Rightarrow> string \<Rightarrow> bool) \<Rightarrow> mstatus list event \<Rightarrow> bool" where
  "honours_max_id older (Fetch req out) =
     (case (page_of (Fetch req out), map_of (searchParams req) ''max_id'') of
        (Some p, Some c) \<Rightarrow> list_all (\<lambda>x. older (id_str x) c) p
      | _ \<Rightarrow> True)"
| "honours_max_id older _ = True"

text \<open>The values the cursor takes in a call: the start cursor when it is truthy, then the
  id of the last status of every non-empty page.\<close>

definition cursor_values :: "string option \<Rightarrow> mstatus list list \<Rightarrow> string list" where
  "cursor_values start ps =
     (case start of Some c \<Rightarrow> if c \<noteq> [] then [c] else [] | None \<Rightarrow> [])
       @ map (\<lambda>p. id_str (last p)) (filter (\<lambda>p. p \<noteq> []) ps)"

text \<open>
  A \<^verbatim>\<open>Retry-After\<close> value as the interface describes it, a number of seconds: a non-empty
  string of decimal digits, and the number it denotes.
\<close>

definition all_digits :: "string \<Rightarrow> bool" where
  "all_digits s = (s \<noteq> [] \<and> list_all (\<lambda>c. digit_val c < 10) s)"

definition decimal_value :: "string \<Rightarrow> nat" where
  "decimal_value s = foldl (\<lambda>a d. a * 10 + d) 0 (map digit_val s)"

section \<open>Example environments\<close>

text \<open>
  A service with a token and one without, and an environment whose network is down. In
  every example the strings passed to \<^verbatim>\<open>new URL\<close> are URLs in serialised form already,
  so the parser returns them as they are.
\<close>

definition svc_token :: service where
  "svc_token = \<lparr>instance = ''mastodon.example'', token = Some ''secret''\<rparr>"

definition svc_anon :: service where
  "svc_anon = \<lparr>instance = ''mastodon.example'', token = None\<rparr>"

definition env_down :: "'a env" where
  "env_down =
     \<lparr>respond = (\<lambda>tr req. Rejected), now = (\<lambda>tr. 0), random = (\<lambda>tr. 0), parse_url = Some\<rparr>"

definition post_a :: mstatus where
  "post_a = \<lparr>id_str = ''103'', created_at = Some 300, reblog = False, content = ''hello''\<rparr>"

definition post_b :: mstatus where
  "post_b = \<lparr>id_str = ''102'', created_at = Some 200, reblog = True, content = ''boost''\<rparr>"

definition ok_response :: "'a \<Rightarrow> 'a response" where
  "ok_response v = \<lparr>status = 200, retryAfter = None, body = Parsed None v\<rparr>"

definition env_small :: "mstatus list env" where
  "env_small = \<lparr>respond = (\<lambda>tr req. Response (ok_response [post_a, post_b])),
                now = (\<lambda>tr. 0), random = (\<lambda>tr. 0), parse_url = Some\<rparr>"

definition env_denied :: "mstatus list env" where
  "env_denied =
     \<lparr>respond = (\<lambda>tr req.
        if map_of (headers req) ''Authorization'' = None then Response (ok_response [])
        else Response \<lparr>status = 403, retryAfter = None,
                       body = Parsed (Some ''This action is not allowed'') []\<rparr>),
      now = (\<lambda>tr. 0), random = (\<lambda>tr. 0), parse_url = Some\<rparr>"

definition req_small :: request where
  "req_small =
     \<lparr>url = ''https://mastodon.example/api/v1/accounts/7/statuses'',
      searchParams = [(''limit'', ''40'')],
      headers = [(''Content-Type'', ''application/json''), (''Authorization'', ''Bearer secret'')]\<rparr>"

text \<open>A server that ignores the limit and sends 10001 old statuses in one page.\<close>

definition post_old :: mstatus where
  "post_old = \<lparr>id_str = ''9'', created_at = Some 50, reblog = False, content = ''old''\<rparr>"

definition env_burst :: "mstatus list env" where
  "env_burst = \<lparr>respond = (\<lambda>tr req. Response (ok_response (replicate 10001 post_old))),
                now = (\<lambda>tr. 0), random = (\<lambda>tr. 0), parse_url = Some\<rparr>"

text \<open>
  An account with 10040 statuses, none of them a reblog, numbered from the newest; status
  \<open>j\<close> is dated \<open>10040 - j\<close>. The server answers the \<open>k\<close>-th page request with statuses
  \<open>40 * k\<close> to \<open>40 * k + 39\<close>.
\<close>

definition post_no :: "nat \<Rightarrow> mstatus" where
  "post_no j = \<lparr>id_str = toString (20000 - j), created_at = Some (10040 - int j),
                reblog = False, content = []\<rparr>"

definition page_at :: "nat \<Rightarrow> mstatus list" where
  "page_at k = map (\<lambda>i. post_no (40 * k + i)) [0..<40]"

definition env_long :: "mstatus list env" where
  "env_long = \<lparr>respond = (\<lambda>tr req. Response (ok_response (page_at (length (pages tr))))),
               now = (\<lambda>tr. 0), random = (\<lambda>tr. 0), parse_url = Some\<rparr>"

text \<open>
  A server that honours \<^verbatim>\<open>max_id\<close> on the account above: the first page is statuses 0 to
  39, and a request with a cursor is answered with the single status 40. Ids are compared
  as numbers.
\<close>

definition env_two :: "mstatus list env" where
  "env_two =
     \<lparr>respond = (\<lambda>tr req. case map_of (searchParams req) ''max_id'' of
                   None \<Rightarrow> Response (ok_response (page_at 0))
                 | Some c \<Rightarrow> Response (ok_response [post_no 40])),
      now = (\<lambda>tr. 0), random = (\<lambda>tr. 0), parse_url = Some\<rparr>"

definition older_id :: "string \<Rightarrow> string \<Rightarrow> bool" where
  "older_id a b = (case (parseInt a, parseInt b) of (Num x, Num y) \<Rightarrow> x < y | _ \<Rightarrow> False)"

definition req_first :: request where
  "req_first = \<lparr>url = ''https://mastodon.example/api/v1/accounts/7/statuses'',
                 searchParams = [(''limit'', ''40'')],
                 headers = [(''Content-Type'', ''application/json'')]\<rparr>"

definition req_second :: request where
  "req_second = \<lparr>url = ''https://mastodon.example/api/v1/accounts/7/statuses'',
                  searchParams = [(''limit'', ''40''), (''max_id'', ''19961'')],
                  headers = [(''Content-Type'', ''application/json'')]\<rparr>"

text \<open>
  A server that answers every request 429; only its first answer carries
  \<^verbatim>\<open>Retry-After: 3\<close>.
\<close>

definition limited :: "string option \<Rightarrow> mstatus list response" where
  "limited h = \<lparr>status = 429, retryAfter = h, body = Parsed (Some ''Too many requests'') []\<rparr>"

definition env_limited :: "mstatus list env" where
  "env_limited =
     \<lparr>respond = (\<lambda>tr req. Response (limited (if requests tr = [] then Some ''3'' else None))),
      now = (\<lambda>tr. 0), random = (\<lambda>tr. 0), parse_url = Some\<rparr>"

text \<open>
  A server that refuses the authenticated request with 403 and answers the first request
  without \<^verbatim>\<open>Authorization\<close> with 429; a server whose 403 has the body \<^verbatim>\<open>null\<close>.
\<close>

definition env_denied_limited :: "mstatus list env" where
  "env_denied_limited =
     \<lparr>respond = (\<lambda>tr req.
        if map_of (headers req) ''Authorization'' \<noteq> None
        then Response \<lparr>status = 403, retryAfter = None,
                       body = Parsed (Some ''This action is not allowed'') []\<rparr>
        else if length (requests tr) < 2 then Response (limited None)
        else Response (ok_response [])),
      now = (\<lambda>tr. 0), random = (\<lambda>tr. 0), parse_url = Some\<rparr>"

definition env_denied_null :: "mstatus list env" where
  "env_denied_null =
     \<lparr>respond = (\<lambda>tr req. Response \<lparr>status = 403, retryAfter = None, body = JsonNull\<rparr>),
      now = (\<lambda>tr. 0), random = (\<lambda>tr. 0), parse_url = Some\<rparr>"

text \<open>
  A server that answers every request 429: first with an HTTP date in \<^verbatim>\<open>Retry-After\<close>,
  then with an empty \<^verbatim>\<open>Retry-After\<close>, then with the body \<^verbatim>\<open>null\<close>.
\<close>

definition env_dated :: "mstatus list env" where
  "env_dated =
     \<lparr>respond = (\<lambda>tr req. Response
        (if requests tr = [] then limited (Some ''Wed, 21 Oct 2015 07:28:00 GMT'')
         else if length (requests tr) = 1 then limited (Some [])
         else \<lparr>status = 429, retryAfter = None, body = JsonNull\<rparr>)),
      now = (\<lambda>tr. 0), random = (\<lambda>tr. 0), parse_url = Some\<rparr>"

section \<open>Properties\<close>

declare fetchApi.simps [simp del]
declare crawl_loop.simps [simp del]
declare crawl_loop2.simps [simp del]

subsection \<open>Traces of the request layer and of one page fetch\<close>

lemma pages_Nil [simp]: "pages [] = []"
  by (simp add: pages_def)

lemma pages_Cons: "pages (e # es) = (case page_of e of Some v \<Rightarrow> v # pages es | None \<Rightarrow> pages es)"
  by (simp add: pages_def split: option.splits)

lemma pages_append [simp]: "pages (a @ b) = pages a @ pages b"
  by (induction a) (simp_all add: pages_Cons split: option.splits)

lemma requests_Nil [simp]: "requests [] = []"
  by (simp add: requests_def)

lemma requests_Cons: "requests (e # es) = (case request_of e of Some v \<Rightarrow> v # requests es | None \<Rightarrow> requests es)"
  by (simp add: requests_def split: option.splits)

lemma requests_append [simp]: "requests (a @ b) = requests a @ requests b"
  by (induction a) (simp_all add: requests_Cons split: option.splits)

lemma http_error_status:
  "body r \<noteq> JsonNull \<Longrightarrow> error_status (http_error r) = Some (status r)"
  by (simp add: http_error_def Let_def split: body.splits option.splits)

lemma http_error_denied: "error_status (http_error r) = Some n \<Longrightarrow> status r = n"
  by (auto simp: http_error_def Let_def split: body.splits option.splits)

lemma fetchApi_no_url:
  "parse_url env (endpoint_url svc ep) = None \<Longrightarrow>
     fetchApi env svc ep ps ua k tr = (Inl TypeError, tr)"
  by (subst fetchApi.simps) simp

lemma fetchApi2_no_url:
  "parse_url env (endpoint_url svc ep) = None \<Longrightarrow>
     fetchApi2 env svc ep ps ua tr = (Inl TypeError, tr)"
  by (simp add: fetchApi2_def)

lemma fetchApi_run:
  assumes "parse_url env (endpoint_url svc ep) = Some u"
  shows "\<exists>evs. snd (fetchApi env svc ep ps ua k tr) = tr @ evs
      \<and> api_run (make_request u svc ps ua) (2 - k) evs (fst (fetchApi env svc ep ps ua k tr))"
  using assms
proof (induction env svc ep ps ua k tr rule: fetchApi.induct)
  case (1 env svc ep ps ua k tr)
  note url = "1.prems"
  let ?req = "make_request u svc ps ua"
  show ?case
  proof (cases "respond env tr ?req")
    case Rejected
    then show ?thesis
      using url by (subst (1 2) fetchApi.simps) (auto simp: Let_def api_run_def)
  next
    case (Response r)
    show ?thesis
    proof (cases "status r = 429 \<and> k < 2")
      case True
      let ?mid = "[Fetch ?req (Response r), Warn (RateLimitHit (waitTime r k)), Sleep (waitTime r k)]"
      let ?tr' = "(tr @ [Fetch ?req (respond env tr ?req)]) @ [Warn (RateLimitHit (waitTime r k)), Sleep (waitTime r k)]"
      have eq: "fetchApi env svc ep ps ua k tr = fetchApi env svc ep ps ua (k + 1) ?tr'"
        using Response True url by (subst fetchApi.simps) (simp add: Let_def)
      from "1.IH"[OF url refl refl refl Response True url]
      obtain evs where
        h: "snd (fetchApi env svc ep ps ua (k + 1) ?tr') = ?tr' @ evs"
           "api_run ?req (2 - (k + 1)) evs (fst (fetchApi env svc ep ps ua (k + 1) ?tr'))"
        by blast
      from h(2) obtain pre out where
        p: "evs = pre @ [Fetch ?req out]" "pages pre = []" "\<forall>x\<in>set pre. \<not> denied x"
           "set (requests pre) \<subseteq> {?req}" "length (requests pre) \<le> 2 - (k + 1)"
           "(case fst (fetchApi env svc ep ps ua (k + 1) ?tr') of
              Inr (Some v) \<Rightarrow> page_of (Fetch ?req out) = Some v \<and> \<not> denied (Fetch ?req out)
            | Inr None \<Rightarrow> page_of (Fetch ?req out) = None \<and> \<not> denied (Fetch ?req out)
            | Inl e \<Rightarrow> page_of (Fetch ?req out) = None
                \<and> (error_status e = Some 403 \<or> error_status e = Some 401
                      \<longrightarrow> denied (Fetch ?req out)))"
        unfolding api_run_def by blast
      have "api_run ?req (2 - k) (?mid @ evs) (fst (fetchApi env svc ep ps ua (k + 1) ?tr'))"
        unfolding api_run_def
        apply (rule exI[of _ "?mid @ pre"])
        apply (rule exI[of _ out])
        using p True by (auto simp: pages_Cons requests_Cons ok_def)
      moreover have "snd (fetchApi env svc ep ps ua (k + 1) ?tr') = tr @ ?mid @ evs"
        using h(1) Response by simp
      ultimately show ?thesis unfolding eq by blast
    next
      case False
      then show ?thesis using Response url
        by (subst (1 2) fetchApi.simps)
           (auto simp: Let_def api_run_def ok_def dest: http_error_denied split: body.splits)
    qed
  qed
qed

lemma fetchApi2_run:
  assumes "parse_url env (endpoint_url svc ep) = Some u"
  shows "\<exists>evs. snd (fetchApi2 env svc ep ps ua tr) = tr @ evs
      \<and> api_run (make_request u svc ps ua) 0 evs (fst (fetchApi2 env svc ep ps ua tr))"
  using assms
  by (auto simp: fetchApi2_def Let_def api_run_def ok_def dest: http_error_denied
           split: outcome.splits body.splits)

lemma api_run_requests:
  assumes "api_run req m evs res"
  shows "set (requests evs) \<subseteq> {req}" "length (requests evs) \<le> Suc m" "requests evs \<noteq> []"
  using assms by (auto simp: api_run_def requests_Cons)

lemma api_run_Inr:
  assumes "api_run req m evs (Inr (Some v))"
  shows "\<exists>pre e. evs = pre @ [e] \<and> pages pre = [] \<and> page_of e = Some v"
    and "\<not> (\<exists>x\<in>set evs. denied x)"
  using assms unfolding api_run_def by (force, auto)

lemma api_run_null:
  assumes "api_run req m evs (Inr None)"
  shows "pages evs = []"
  using assms unfolding api_run_def by (auto simp: pages_Cons)

lemma api_run_Inl:
  assumes "api_run req m evs (Inl e)"
  shows "pages evs = []"
    and "error_status e = Some 403 \<or> error_status e = Some 401 \<Longrightarrow> \<exists>x\<in>set evs. denied x"
  using assms unfolding api_run_def by (auto simp: pages_Cons)

lemma page_run_direct:
  assumes "api_run req m evs (Inr v)" "req \<in> R"
  shows "page_run R (2 * Suc m) evs (Inr (v, False))"
proof (cases v)
  case None
  then show ?thesis
    using api_run_requests[OF assms(1)] api_run_null[OF assms(1)[unfolded None]] assms(2)
    unfolding page_run_def by auto
next
  case (Some b)
  then show ?thesis
    using api_run_requests[OF assms(1)] api_run_Inr[OF assms(1)[unfolded Some]] assms(2)
    unfolding page_run_def by auto
qed

lemma page_run_error:
  assumes "api_run req m evs (Inl e)" "req \<in> R"
  shows "page_run R (2 * Suc m) evs (Inl e)"
  using api_run_requests[OF assms(1)] api_run_Inl(1)[OF assms(1)] assms(2)
  unfolding page_run_def by auto

lemma page_run_fallback:
  assumes a1: "api_run req1 m evs1 (Inl e)"
    and d: "error_status e = Some 403 \<or> error_status e = Some 401"
    and a2: "api_run req2 m evs2 res"
    and mid: "\<forall>x\<in>set mid. page_of x = None \<and> request_of x = None"
    and R: "req1 \<in> R" "req2 \<in> R"
  shows "page_run R (2 * Suc m) (evs1 @ mid @ evs2) (map_sum (\<lambda>e. e) (\<lambda>v. (v, True)) res)"
proof -
  have pm: "pages mid = []" "requests mid = []"
    using mid by (induction mid) (auto simp: pages_Cons requests_Cons)
  have den: "\<exists>x\<in>set evs1. denied x"
    using api_run_Inl(2)[OF a1 d] .
  have rq: "set (requests (evs1 @ mid @ evs2)) \<subseteq> R"
           "length (requests (evs1 @ mid @ evs2)) \<le> 2 * Suc m"
    using api_run_requests[OF a1] api_run_requests[OF a2] R pm by auto
  show ?thesis
  proof (cases res)
    case (Inl e2)
    then show ?thesis
      using rq api_run_Inl(1)[OF a1] api_run_Inl(1)[OF a2[unfolded Inl]] pm
      unfolding page_run_def by simp
  next
    case (Inr v)
    show ?thesis
    proof (cases v)
      case None
      then show ?thesis
        using rq api_run_Inl(1)[OF a1] api_run_null[OF a2[unfolded Inr None]] pm Inr
        unfolding page_run_def by simp
    next
      case (Some b)
      from api_run_Inr(1)[OF a2[unfolded Inr Some]] obtain pre e'
        where p: "evs2 = pre @ [e']" "pages pre = []" "page_of e' = Some b" by blast
      have "evs1 @ mid @ evs2 = (evs1 @ mid @ pre) @ [e']" "pages (evs1 @ mid @ pre) = []"
        using p api_run_Inl(1)[OF a1] pm by simp_all
      then have "\<exists>pre e. evs1 @ mid @ evs2 = pre @ [e] \<and> pages pre = [] \<and> page_of e = Some b"
        using p(3) by blast
      then show ?thesis
        using rq den Inr Some unfolding page_run_def by auto
    qed
  qed
qed

lemma page_run_no_url: "page_run R m [] (Inl e)"
  by (simp add: page_run_def)

lemma page_run_null: "page_run R m evs (Inr (None, fb)) \<Longrightarrow> page_run R m evs (Inl e)"
  by (simp add: page_run_def)

lemma getStatusesPage_run:
  "\<exists>evs. snd (getStatusesPage env svc acc c lm tr) = tr @ evs
      \<and> page_run (page_requests env svc acc c lm) 6 evs (fst (getStatusesPage env svc acc c lm tr))"
proof (cases "parse_url env (endpoint_url svc (''accounts/'' @ acc @ ''/statuses''))")
  case None
  then show ?thesis
    by (simp add: getStatusesPage_def Let_def fetchApi_no_url page_run_no_url)
next
  case (Some u)
  let ?ep = "''accounts/'' @ acc @ ''/statuses''"
  let ?ps = "page_params c lm"
  let ?R = "page_requests env svc acc c lm"
  obtain r1 tr1 where f1: "fetchApi env svc ?ep ?ps True 0 tr = (r1, tr1)" by fastforce
  from fetchApi_run[OF Some, of ?ps True 0 tr] f1
  obtain evs1 where e1: "tr1 = tr @ evs1" "api_run (make_request u svc ?ps True) 2 evs1 r1"
    by auto
  have R: "make_request u svc ?ps True \<in> ?R" "make_request u svc ?ps False \<in> ?R"
    using Some by (simp_all add: page_requests_def)
  show ?thesis
  proof (cases r1)
    case (Inr v)
    then show ?thesis
      using f1 e1 page_run_direct[OF e1(2)[unfolded Inr] R(1)]
      by (simp add: getStatusesPage_def Let_def)
  next
    case (Inl e)
    show ?thesis
    proof (cases "error_status e = Some 403 \<or> error_status e = Some 401")
      case False
      then show ?thesis
        using f1 e1 Inl page_run_error[OF e1(2)[unfolded Inl] R(1)]
        by (simp add: getStatusesPage_def Let_def)
    next
      case True
      obtain r2 tr2 where f2: "fetchApi env svc ?ep ?ps False 0 tr1 = (r2, tr2)" by fastforce
      from fetchApi_run[OF Some, of ?ps False 0 tr1] f2
      obtain evs2 where e2: "tr2 = tr1 @ evs2" "api_run (make_request u svc ?ps False) 2 evs2 r2"
        by auto
      have pr: "page_run ?R 6 (evs1 @ [] @ evs2) (map_sum (\<lambda>e. e) (\<lambda>v. (v, True)) r2)"
        using page_run_fallback[OF e1(2)[unfolded Inl] True e2(2) _ R, of "[]"] by simp
      have "getStatusesPage env svc acc c lm tr = (map_sum (\<lambda>e. e) (\<lambda>v. (v, True)) r2, tr2)"
        using f1 f2 Inl True by (cases r2) (simp_all add: getStatusesPage_def Let_def)
      then show ?thesis using pr e1(1) e2(1) by simp
    qed
  qed
qed

lemma getStatusesPage2_run:
  "\<exists>evs. snd (getStatusesPage2 env svc acc c lm tr) = tr @ evs
      \<and> page_run (page_requests env svc acc c lm) 2 evs (fst (getStatusesPage2 env svc acc c lm tr))"
proof (cases "parse_url env (endpoint_url svc (''accounts/'' @ acc @ ''/statuses''))")
  case None
  then show ?thesis
    by (simp add: getStatusesPage2_def Let_def fetchApi2_no_url page_run_no_url)
next
  case (Some u)
  let ?ep = "''accounts/'' @ acc @ ''/statuses''"
  let ?ps = "page_params c lm"
  let ?R = "page_requests env svc acc c lm"
  obtain r1 tr1 where f1: "fetchApi2 env svc ?ep ?ps True tr = (r1, tr1)" by fastforce
  from fetchApi2_run[OF Some, of ?ps True tr] f1
  obtain evs1 where e1: "tr1 = tr @ evs1" "api_run (make_request u svc ?ps True) 0 evs1 r1"
    by auto
  have R: "make_request u svc ?ps True \<in> ?R" "make_request u svc ?ps False \<in> ?R"
    using Some by (simp_all add: page_requests_def)
  show ?thesis
  proof (cases r1)
    case (Inr v)
    then show ?thesis
      using f1 e1 page_run_direct[OF e1(2)[unfolded Inr] R(1)]
      by (simp add: getStatusesPage2_def Let_def)
  next
    case (Inl e)
    show ?thesis
    proof (cases "error_status e = Some 403 \<or> error_status e = Some 401")
      case False
      then show ?thesis
        using f1 e1 Inl page_run_error[OF e1(2)[unfolded Inl] R(1)]
        by (simp add: getStatusesPage2_def Let_def)
    next
      case True
      let ?tr1 = "tr1 @ [Warn PermissionFallback]"
      obtain r2 tr2 where f2: "fetchApi2 env svc ?ep ?ps False ?tr1 = (r2, tr2)" by fastforce
      from fetchApi2_run[OF Some, of ?ps False ?tr1] f2
      obtain evs2 where e2: "tr2 = ?tr1 @ evs2" "api_run (make_request u svc ?ps False) 0 evs2 r2"
        by auto
      have pr: "page_run ?R 2 (evs1 @ [Warn PermissionFallback] @ evs2)
                  (map_sum (\<lambda>e. e) (\<lambda>v. (v, True)) r2)"
        using page_run_fallback[OF e1(2)[unfolded Inl] True e2(2) _ R, of "[Warn PermissionFallback]"]
        by simp
      have "getStatusesPage2 env svc acc c lm tr = (map_sum (\<lambda>e. e) (\<lambda>v. (v, True)) r2, tr2)"
        using f1 f2 Inl True by (cases r2) (simp_all add: getStatusesPage2_def Let_def)
      then show ?thesis using pr e1(1) e2(1) by simp
    qed
  qed
qed

subsection \<open>One iteration of the first loop\<close>

lemma note_fallback_fields [simp]:
  "allFilteredStatuses (note_fallback s fb) = allFilteredStatuses s"
  "maxId (note_fallback s fb) = maxId s"
  "reachedThresholdVar (note_fallback s fb) = reachedThresholdVar s"
  "totalFetched (note_fallback s fb) = totalFetched s"
  "wasFellBack (note_fallback s fb) = (wasFellBack s \<or> fb)"
  by (simp_all add: note_fallback_def)

lemma process_batch_fields [simp]:
  "allFilteredStatuses (process_batch u s batch fb) =
     allFilteredStatuses s @ filter (\<lambda>p. \<not> reblog p) batch"
  "maxId (process_batch u s batch fb) = Some (id_str (last batch))"
  "reachedThresholdVar (process_batch u s batch fb) =
     (reachedThresholdVar s \<or> date_lt (created_at (last batch)) u)"
  "totalFetched (process_batch u s batch fb) = totalFetched s + length batch"
  "wasFellBack (process_batch u s batch fb) = (wasFellBack s \<or> fb)"
  by (simp_all add: process_batch_def Let_def)

lemma crawl_loop_timeout:
  assumes "\<not> reachedThresholdVar s" "now env tr - st > 10000"
  shows "crawl_loop env svc acc u op st s tr =
           (Inr s, tr @ [Clock (now env tr), Warn TimeBudgetExceeded])"
  using assms by (subst crawl_loop.simps) (simp add: Let_def)

lemma crawl_loop_error:
  assumes "\<not> reachedThresholdVar s" "\<not> now env tr - st > 10000"
    and "getStatusesPage env svc acc (maxId s) 40 (tr @ [Clock (now env tr)]) = (Inl err, tr1)"
  shows "crawl_loop env svc acc u op st s tr = (Inl err, tr1)"
  using assms by (subst crawl_loop.simps) (simp add: Let_def)

lemma crawl_loop_null:
  assumes "\<not> reachedThresholdVar s" "\<not> now env tr - st > 10000"
    and "getStatusesPage env svc acc (maxId s) 40 (tr @ [Clock (now env tr)]) = (Inr (None, fb), tr1)"
  shows "crawl_loop env svc acc u op st s tr = (Inl TypeError, tr1)"
  using assms by (subst crawl_loop.simps) (simp add: Let_def)

lemma crawl_loop_empty:
  assumes "\<not> reachedThresholdVar s" "\<not> now env tr - st > 10000"
    and "getStatusesPage env svc acc (maxId s) 40 (tr @ [Clock (now env tr)]) = (Inr (Some [], fb), tr1)"
  shows "crawl_loop env svc acc u op st s tr = (Inr (note_fallback s fb), tr1)"
  using assms by (subst crawl_loop.simps) (simp add: Let_def note_fallback_def)

lemma crawl_loop_stop:
  assumes "\<not> reachedThresholdVar s" "\<not> now env tr - st > 10000"
    and "getStatusesPage env svc acc (maxId s) 40 (tr @ [Clock (now env tr)]) = (Inr (Some batch, fb), tr1)"
    and "batch \<noteq> []" "length batch < 40 \<or> 5000 < totalFetched s + length batch"
  shows "crawl_loop env svc acc u op st s tr =
           (Inr (process_batch u s batch fb),
            tr1 @ progress op (length (allFilteredStatuses (process_batch u s batch fb))))"
  using assms
  by (subst crawl_loop.simps) (auto simp: Let_def process_batch_def note_fallback_def progress_def)

lemma crawl_loop_continue:
  assumes "\<not> reachedThresholdVar s" "\<not> now env tr - st > 10000"
    and "getStatusesPage env svc acc (maxId s) 40 (tr @ [Clock (now env tr)]) = (Inr (Some batch, fb), tr1)"
    and "batch \<noteq> []" "\<not> (length batch < 40 \<or> 5000 < totalFetched s + length batch)"
    and "tr2 = tr1 @ progress op (length (allFilteredStatuses (process_batch u s batch fb)))"
  shows "crawl_loop env svc acc u op st s tr =
           crawl_loop env svc acc u op st (process_batch u s batch fb)
             (tr2 @ [Sleep (Num (\<lfloor>random env tr2 * 300\<rfloor> + 200))])"
  using assms
  by (subst crawl_loop.simps) (simp add: Let_def process_batch_def note_fallback_def progress_def)

lemma crawl_loop_done: "reachedThresholdVar s \<Longrightarrow> crawl_loop env svc acc u op st s tr = (Inr s, tr)"
  by (subst crawl_loop.simps) simp

lemma crawl_loop_induct [case_names Done Timeout Error Empty Stop Continue]:
  fixes P :: "session \<Rightarrow> mstatus list event list \<Rightarrow> (error + session) \<times> mstatus list event list \<Rightarrow> bool"
  assumes Done: "\<And>s tr. reachedThresholdVar s \<Longrightarrow> P s tr (Inr s, tr)"
    and Timeout: "\<And>s tr. \<not> reachedThresholdVar s \<Longrightarrow> now env tr - st > 10000 \<Longrightarrow>
           P s tr (Inr s, tr @ [Clock (now env tr), Warn TimeBudgetExceeded])"
    and Error: "\<And>s tr err evs. \<not> reachedThresholdVar s \<Longrightarrow> \<not> now env tr - st > 10000 \<Longrightarrow>
           page_run (page_requests env svc acc (maxId s) 40) 6 evs (Inl err) \<Longrightarrow>
           P s tr (Inl err, tr @ Clock (now env tr) # evs)"
    and Empty: "\<And>s tr fb evs. \<not> reachedThresholdVar s \<Longrightarrow> \<not> now env tr - st > 10000 \<Longrightarrow>
           page_run (page_requests env svc acc (maxId s) 40) 6 evs (Inr (Some [], fb)) \<Longrightarrow>
           P s tr (Inr (note_fallback s fb), tr @ Clock (now env tr) # evs)"
    and Stop: "\<And>s tr batch fb evs. \<not> reachedThresholdVar s \<Longrightarrow> \<not> now env tr - st > 10000 \<Longrightarrow>
           page_run (page_requests env svc acc (maxId s) 40) 6 evs (Inr (Some batch, fb)) \<Longrightarrow>
           batch \<noteq> [] \<Longrightarrow> length batch < 40 \<or> 5000 < totalFetched s + length batch \<Longrightarrow>
           P s tr (Inr (process_batch u s batch fb),
                   tr @ Clock (now env tr) # evs
                      @ progress op (length (allFilteredStatuses (process_batch u s batch fb))))"
    and Continue: "\<And>s tr batch fb evs w res. \<not> reachedThresholdVar s \<Longrightarrow> \<not> now env tr - st > 10000 \<Longrightarrow>
           page_run (page_requests env svc acc (maxId s) 40) 6 evs (Inr (Some batch, fb)) \<Longrightarrow>
           40 \<le> length batch \<Longrightarrow> totalFetched s + length batch \<le> 5000 \<Longrightarrow>
           P (process_batch u s batch fb)
             (tr @ Clock (now env tr) # evs
                 @ progress op (length (allFilteredStatuses (process_batch u s batch fb)))
                 @ [Sleep w]) res \<Longrightarrow>
           P s tr res"
  shows "P s tr (crawl_loop env svc acc u op st s tr)"
proof (induction "5001 - totalFetched s" arbitrary: s tr rule: less_induct)
  case less
  show ?case
  proof (cases "reachedThresholdVar s")
    case True
    then show ?thesis by (simp add: crawl_loop_done Done)
  next
    case nr: False
    show ?thesis
    proof (cases "now env tr - st > 10000")
      case True
      then show ?thesis using nr by (simp add: crawl_loop_timeout Timeout)
    next
      case nt: False
      let ?tr0 = "tr @ [Clock (now env tr)]"
      obtain r tr1 where g: "getStatusesPage env svc acc (maxId s) 40 ?tr0 = (r, tr1)"
        by fastforce
      from getStatusesPage_run[of env svc acc "maxId s" 40 ?tr0] g
      obtain evs where e: "tr1 = ?tr0 @ evs" "page_run (page_requests env svc acc (maxId s) 40) 6 evs r"
        by auto
      show ?thesis
      proof (cases r)
        case (Inl err)
        then show ?thesis
          using g e Error[OF nr nt e(2)[unfolded Inl]]
          by (simp add: crawl_loop_error[OF nr nt g[unfolded Inl]])
      next
        case (Inr bf)
        obtain page fb where bf: "bf = (page, fb)" by (cases bf)
        show ?thesis
        proof (cases page)
          case None
          then show ?thesis
            using e Error[OF nr nt page_run_null[OF e(2)[unfolded Inr bf None], of TypeError]]
            by (simp add: crawl_loop_null[OF nr nt g[unfolded Inr bf None]])
        next
        case (Some batch)
        note bf = bf[unfolded Some]
        note pr = e(2)[unfolded Inr bf]
        show ?thesis
        proof (cases "batch = []")
          case True
          then show ?thesis
            using e Empty[OF nr nt pr[unfolded True]]
            by (simp add: crawl_loop_empty[OF nr nt g[unfolded Inr bf True]])
        next
          case ne: False
          let ?s' = "process_batch u s batch fb"
          let ?tr2 = "tr1 @ progress op (length (allFilteredStatuses ?s'))"
          show ?thesis
          proof (cases "length batch < 40 \<or> 5000 < totalFetched s + length batch")
            case True
            then show ?thesis
              using e Stop[OF nr nt pr ne True]
              by (simp add: crawl_loop_stop[OF nr nt g[unfolded Inr bf] ne True])
          next
            case False
            let ?w = "Num (\<lfloor>random env ?tr2 * 300\<rfloor> + 200)"
            have eq: "crawl_loop env svc acc u op st s tr =
                      crawl_loop env svc acc u op st ?s' (?tr2 @ [Sleep ?w])"
              by (rule crawl_loop_continue[OF nr nt g[unfolded Inr bf] ne False refl])
            have "5001 - totalFetched ?s' < 5001 - totalFetched s"
              using False unfolding process_batch_fields by arith
            from less[OF this, of "?tr2 @ [Sleep ?w]"]
            have "P ?s' (?tr2 @ [Sleep ?w]) (crawl_loop env svc acc u op st ?s' (?tr2 @ [Sleep ?w]))" .
            then have "P s tr (crawl_loop env svc acc u op st ?s' (?tr2 @ [Sleep ?w]))"
              using Continue[OF nr nt pr, of ?w] False e(1) by simp
            then show ?thesis unfolding eq .
          qed
        qed
        qed
      qed
    qed
  qed
qed

subsection \<open>No request after the page that ends the crawl\<close>

lemma page_of_request: "page_of e = Some p \<Longrightarrow> request_of e \<noteq> None"
  by (cases e) auto

lemma requests_Nil_pages: "requests evs = [] \<Longrightarrow> pages evs = []"
proof (induction evs)
  case Nil
  then show ?case by simp
next
  case (Cons e es)
  then show ?case
    by (cases e) (auto simp: requests_Cons pages_Cons split: option.splits)
qed

lemma pages_Nil_iff: "pages evs = [] \<longleftrightarrow> (\<forall>e\<in>set evs. page_of e = None)"
  by (induction evs) (auto simp: pages_Cons split: option.splits)

lemma requests_Nil_iff: "requests evs = [] \<longleftrightarrow> (\<forall>e\<in>set evs. request_of e = None)"
  by (induction evs) (auto simp: requests_Cons split: option.splits)

lemma quiet_no_pages:
  "pages a = [] \<Longrightarrow> quiet_after_end cap u n h (a @ b) = ((h \<longrightarrow> requests a = []) \<and> quiet_after_end cap u n h b)"
  by (induction a) (auto simp: pages_Cons requests_Cons split: option.splits)

lemma quiet_halted: "quiet_after_end cap u n True b = (requests b = [])"
proof (induction b arbitrary: n)
  case Nil
  then show ?case by simp
next
  case (Cons e es)
  then show ?case
    by (cases "page_of e") (auto simp: requests_Cons dest: page_of_request split: option.splits)
qed

lemma quiet_page:
  "page_of e = Some p \<Longrightarrow>
   quiet_after_end cap u n False (e # b) = quiet_after_end cap u (n + length p) (ends_crawl cap u n p) b"
  by simp

lemma quiet_iteration:
  assumes pr: "page_run R m evs (Inr (Some batch, fb))"
    and pfx: "pages pfx = []" and mid: "pages mid = []" "requests mid = []"
  shows "quiet_after_end cap u n False (pfx @ evs @ mid @ rest) =
         quiet_after_end cap u (n + length batch) (ends_crawl cap u n batch) rest"
proof -
  from pr obtain pre e where e: "evs = pre @ [e]" "pages pre = []" "page_of e = Some batch"
    unfolding page_run_def by auto
  have "quiet_after_end cap u n False (pfx @ evs @ mid @ rest) =
        quiet_after_end cap u n False (e # mid @ rest)"
    using e pfx by (simp add: quiet_no_pages)
  also have "\<dots> = quiet_after_end cap u (n + length batch) (ends_crawl cap u n batch) (mid @ rest)"
    using e(3) by simp
  also have "\<dots> = quiet_after_end cap u (n + length batch) (ends_crawl cap u n batch) rest"
    using mid by (simp add: quiet_no_pages)
  finally show ?thesis .
qed

lemma page_run_pages:
  "page_run R m evs (Inr (Some batch, fb)) \<Longrightarrow> pages evs = [batch]"
  "page_run R m evs (Inl err) \<Longrightarrow> pages evs = []"
  unfolding page_run_def by (auto simp: pages_Cons)

lemma page_run_denied: "page_run R m evs (Inr (Some batch, fb)) \<Longrightarrow> fb = (\<exists>x\<in>set evs. denied x)"
  unfolding page_run_def by auto

lemma pages_progress [simp]: "pages (progress op n) = []" "requests (progress op n) = []"
  by (simp_all add: progress_def pages_Cons requests_Cons)

lemma not_denied_progress [simp]: "x \<in> set (progress op n) \<Longrightarrow> \<not> denied x"
  by (auto simp: progress_def split: if_splits)

lemma crawl_loop_quiet:
  "\<exists>evs. snd (crawl_loop env svc acc u op st s tr) = tr @ evs
     \<and> quiet_after_end 5000 u (totalFetched s) (reachedThresholdVar s) evs"
proof (induction s tr rule: crawl_loop_induct[where env = env and svc = svc and acc = acc and u = u and op = op and st = st])
  case (Done s tr)
  then show ?case by simp
next
  case (Timeout s tr)
  then show ?case by (simp add: pages_Cons)
next
  case (Error s tr err evs)
  have "pages (Clock (now env tr) # evs) = []"
    using page_run_pages(2)[OF Error(3)] by (simp add: pages_Cons)
  from quiet_no_pages[OF this, of 5000 u "totalFetched s" False "[]"] Error(1)
  show ?case by simp
next
  case (Empty s tr fb evs)
  from quiet_iteration[OF Empty(3), of "[Clock (now env tr)]" "[]" 5000 u "totalFetched s" "[]"] Empty(1)
  show ?case by (simp add: pages_Cons)
next
  case (Stop s tr batch fb evs)
  let ?prog = "progress op (length (allFilteredStatuses (process_batch u s batch fb)))"
  from quiet_iteration[OF Stop(3), of "[Clock (now env tr)]" ?prog 5000 u "totalFetched s" "[]"] Stop(1)
  show ?case by (simp add: pages_Cons)
next
  case (Continue s tr batch fb evs w res)
  let ?s' = "process_batch u s batch fb"
  let ?prog = "progress op (length (allFilteredStatuses ?s'))"
  from Continue(6) obtain evs' where
    r: "snd res = (tr @ Clock (now env tr) # evs @ ?prog @ [Sleep w]) @ evs'"
       "quiet_after_end 5000 u (totalFetched ?s') (reachedThresholdVar ?s') evs'"
    by blast
  have h: "ends_crawl 5000 u (totalFetched s) batch = reachedThresholdVar ?s'"
    using Continue(1,4,5) by (auto simp: ends_crawl_def)
  have "quiet_after_end 5000 u (totalFetched s) False
          ([Clock (now env tr)] @ evs @ (?prog @ [Sleep w]) @ evs')"
    using quiet_iteration[OF Continue(3), of "[Clock (now env tr)]" "?prog @ [Sleep w]" 5000 u "totalFetched s" evs']
      r(2) h by (simp add: pages_Cons requests_Cons)
  then show ?case using r(1) Continue(1) by auto
qed

subsection \<open>What the loop computes, and what it requests\<close>

lemma pages_quiet_simps [simp]:
  "pages (Clock t # es) = pages es" "pages (Warn m # es) = pages es"
  "pages (Sleep w # es) = pages es" "pages (Progress n # es) = pages es"
  "requests (Clock t # es) = requests es" "requests (Warn m # es) = requests es"
  "requests (Sleep w # es) = requests es" "requests (Progress n # es) = requests es"
  by (simp_all add: pages_Cons requests_Cons)

lemma cursor_after_simps [simp]:
  "cursor_after c [] = c"
  "cursor_after c (p # ps) = cursor_after (if p = [] then c else Some (id_str (last p))) ps"
  "cursor_after c (ps @ qs) = cursor_after (cursor_after c ps) qs"
  by (simp_all add: cursor_after_def)

lemma summary_refl: "summary u s s []"
  by (simp add: summary_def)

lemma summary_quiet_events:
  assumes "pages evs = []" "\<forall>x\<in>set evs. \<not> denied x"
  shows "summary u s s evs"
  using assms by (simp add: summary_def)

lemma summary_empty_page:
  assumes "page_run R m evs (Inr (Some [], fb))" "pages pfx = []" "\<forall>x\<in>set pfx. \<not> denied x"
  shows "summary u s (note_fallback s fb) (pfx @ evs)"
  using page_run_pages(1)[OF assms(1)] page_run_denied[OF assms(1)] assms(2,3)
  by (auto simp: summary_def)

lemma summary_page:
  assumes "page_run R m evs (Inr (Some batch, fb))" "batch \<noteq> []"
    and "pages pfx = []" "\<forall>x\<in>set pfx. \<not> denied x"
    and "pages mid = []" "\<forall>x\<in>set mid. \<not> denied x"
  shows "summary u s (process_batch u s batch fb) (pfx @ evs @ mid)"
  using page_run_pages(1)[OF assms(1)] page_run_denied[OF assms(1)] assms(2-)
  by (auto simp: summary_def)

lemma summary_trans:
  assumes "summary u s s1 a" "summary u s1 s2 b"
  shows "summary u s s2 (a @ b)"
  using assms by (auto simp: summary_def)

lemma crawl_loop_summary:
  "\<exists>evs. snd (crawl_loop env svc acc u op st s tr) = tr @ evs
     \<and> (\<forall>s'. fst (crawl_loop env svc acc u op st s tr) = Inr s' \<longrightarrow> summary u s s' evs)"
proof (induction s tr rule: crawl_loop_induct[where env = env and svc = svc and acc = acc and u = u and op = op and st = st])
  case (Done s tr)
  then show ?case by (simp add: summary_refl)
next
  case (Timeout s tr)
  have "summary u s s [Clock (now env tr), Warn TimeBudgetExceeded]"
    by (rule summary_quiet_events) (simp_all add: pages_Cons)
  then show ?case by simp
next
  case (Error s tr err evs)
  then show ?case by simp
next
  case (Empty s tr fb evs)
  have "summary u s (note_fallback s fb) ([Clock (now env tr)] @ evs)"
    by (rule summary_empty_page[OF Empty(3)]) (simp_all add: pages_Cons)
  then show ?case by simp
next
  case (Stop s tr batch fb evs)
  let ?prog = "progress op (length (allFilteredStatuses (process_batch u s batch fb)))"
  have "summary u s (process_batch u s batch fb) ([Clock (now env tr)] @ evs @ ?prog)"
    by (rule summary_page[OF Stop(3,4)]) (simp_all add: pages_Cons)
  then show ?case by simp
next
  case (Continue s tr batch fb evs w res)
  let ?s' = "process_batch u s batch fb"
  let ?prog = "progress op (length (allFilteredStatuses ?s'))"
  from Continue(6) obtain evs' where
    r: "snd res = (tr @ Clock (now env tr) # evs @ ?prog @ [Sleep w]) @ evs'"
       "\<forall>s'. fst res = Inr s' \<longrightarrow> summary u ?s' s' evs'"
    by blast
  have ne: "batch \<noteq> []" using Continue(4) by auto
  have one: "summary u s ?s' ([Clock (now env tr)] @ evs @ (?prog @ [Sleep w]))"
    by (rule summary_page[OF Continue(3) ne]) (auto simp: pages_Cons)
  have "\<forall>s'. fst res = Inr s' \<longrightarrow>
          summary u s s' (([Clock (now env tr)] @ evs @ (?prog @ [Sleep w])) @ evs')"
    using summary_trans[OF one] r(2) by blast
  then show ?case using r(1) by auto
qed

lemma cursor_ok_no_pages:
  "pages a = [] \<Longrightarrow>
   cursor_ok env svc acc c (a @ b) = (set (requests a) \<subseteq> page_requests env svc acc c 40 \<and> cursor_ok env svc acc c b)"
  by (induction a) (auto simp: pages_Cons requests_Cons split: option.splits)

lemma cursor_ok_append:
  "cursor_ok env svc acc c (a @ b) = (cursor_ok env svc acc c a \<and> cursor_ok env svc acc (cursor_after c (pages a)) b)"
  by (induction a arbitrary: c) (auto simp: pages_Cons split: option.splits)

lemma cursor_ok_page_run:
  assumes "page_run (page_requests env svc acc c 40) m evs r"
  shows "cursor_ok env svc acc c evs"
proof (cases r)
  case (Inl err)
  then have "pages evs = []" using assms page_run_pages(2) by blast
  from cursor_ok_no_pages[OF this, of env svc acc c "[]"] assms show ?thesis
    by (simp add: page_run_def)
next
  case (Inr bf)
  obtain page fb where bf: "bf = (page, fb)" by (cases bf)
  show ?thesis
  proof (cases page)
    case None
    then have "pages evs = []" using assms Inr bf by (simp add: page_run_def)
    from cursor_ok_no_pages[OF this, of env svc acc c "[]"] assms show ?thesis
      by (simp add: page_run_def)
  next
    case (Some batch)
    from assms[unfolded Inr bf Some] obtain pre e where
      e: "evs = pre @ [e]" "pages pre = []" "page_of e = Some batch"
         "set (requests evs) \<subseteq> page_requests env svc acc c 40"
      unfolding page_run_def by auto
    then show ?thesis
      by (auto simp: cursor_ok_no_pages requests_Cons split: option.splits)
  qed
qed

lemma cursor_ok_quiet_events:
  "requests a = [] \<Longrightarrow> cursor_ok env svc acc c (a @ b) = cursor_ok env svc acc c b"
  using cursor_ok_no_pages[OF requests_Nil_pages, of a env svc acc c b] by simp

lemma crawl_loop_requests:
  "\<exists>evs. snd (crawl_loop env svc acc u op st s tr) = tr @ evs
     \<and> cursor_ok env svc acc (maxId s) evs
     \<and> length (pages evs) \<le> fetch_budget 5000 (totalFetched s)
     \<and> length (requests evs) \<le> 6 * fetch_budget 5000 (totalFetched s)"
proof (induction s tr rule: crawl_loop_induct[where env = env and svc = svc and acc = acc and u = u and op = op and st = st])
  case (Done s tr)
  then show ?case by simp
next
  case (Timeout s tr)
  then show ?case by (simp add: pages_Cons requests_Cons)
next
  case (Error s tr err evs)
  have "cursor_ok env svc acc (maxId s) ([Clock (now env tr)] @ evs)"
    using cursor_ok_page_run[OF Error(3)] by (simp add: cursor_ok_quiet_events requests_Cons)
  moreover have "length (requests evs) \<le> 6" "pages evs = []"
    using Error(3) by (auto simp: page_run_def)
  ultimately show ?case by (simp add: pages_Cons requests_Cons fetch_budget_def)
next
  case (Empty s tr fb evs)
  have "cursor_ok env svc acc (maxId s) ([Clock (now env tr)] @ evs)"
    using cursor_ok_page_run[OF Empty(3)] by (simp add: cursor_ok_quiet_events requests_Cons)
  moreover have "length (requests evs) \<le> 6" "pages evs = [[]]"
    using Empty(3) page_run_pages(1)[OF Empty(3)] by (auto simp: page_run_def)
  ultimately show ?case by (simp add: pages_Cons requests_Cons fetch_budget_def)
next
  case (Stop s tr batch fb evs)
  let ?prog = "progress op (length (allFilteredStatuses (process_batch u s batch fb)))"
  have "cursor_ok env svc acc (maxId s) (([Clock (now env tr)] @ evs) @ ?prog)"
    unfolding cursor_ok_append[of _ _ _ _ "[Clock (now env tr)] @ evs"]
    using cursor_ok_page_run[OF Stop(3)] cursor_ok_quiet_events[of ?prog env svc acc _ "[]"]
    by (simp add: cursor_ok_quiet_events requests_Cons)
  moreover have "length (requests evs) \<le> 6" "pages evs = [batch]"
    using Stop(3) page_run_pages(1)[OF Stop(3)] by (auto simp: page_run_def)
  ultimately show ?case by (simp add: pages_Cons requests_Cons fetch_budget_def)
next
  case (Continue s tr batch fb evs w res)
  let ?s' = "process_batch u s batch fb"
  let ?prog = "progress op (length (allFilteredStatuses ?s'))"
  let ?it = "[Clock (now env tr)] @ evs @ ?prog @ [Sleep w]"
  from Continue(6) obtain evs' where
    r: "snd res = (tr @ Clock (now env tr) # evs @ ?prog @ [Sleep w]) @ evs'"
       "cursor_ok env svc acc (maxId ?s') evs'"
       "length (pages evs') \<le> fetch_budget 5000 (totalFetched ?s')"
       "length (requests evs') \<le> 6 * fetch_budget 5000 (totalFetched ?s')"
    by blast
  have pg: "length (requests evs) \<le> 6" "pages evs = [batch]"
    using Continue(3) page_run_pages(1)[OF Continue(3)] by (auto simp: page_run_def)
  have ne: "batch \<noteq> []" using Continue(4) by auto
  have c1: "cursor_ok env svc acc (maxId s) ([Clock (now env tr)] @ evs)"
    using cursor_ok_page_run[OF Continue(3)] by (simp add: cursor_ok_quiet_events requests_Cons)
  have c2: "cursor_after (maxId s) (pages ([Clock (now env tr)] @ evs)) = maxId ?s'"
    using pg(2) ne by (simp add: pages_Cons)
  have "cursor_ok env svc acc (maxId s) (([Clock (now env tr)] @ evs) @ (?prog @ [Sleep w]) @ evs')"
    unfolding cursor_ok_append[of _ _ _ _ "[Clock (now env tr)] @ evs"] c2
    using c1 r(2) cursor_ok_quiet_events[of "?prog @ [Sleep w]" env svc acc "maxId ?s'" evs']
    by (simp add: requests_Cons)
  then have ok: "cursor_ok env svc acc (maxId s) (?it @ evs')" by simp
  have bud: "Suc (fetch_budget 5000 (totalFetched ?s')) \<le> fetch_budget 5000 (totalFetched s)"
    using Continue(4,5) unfolding fetch_budget_def process_batch_fields by arith
  have np: "length (pages (?it @ evs')) \<le> fetch_budget 5000 (totalFetched s)"
    using pg(2) r(3) bud by (simp add: pages_Cons)
  have nr: "length (requests (?it @ evs')) \<le> 6 * fetch_budget 5000 (totalFetched s)"
    using pg(1) r(4) bud by (simp add: requests_Cons)
  from ok np nr r(1) show ?case by auto
qed

subsection \<open>The loop of the second copy\<close>

lemma note_short_fields [simp]:
  "allFilteredStatuses (note_short s batch) = allFilteredStatuses s"
  "maxId (note_short s batch) = maxId s"
  "reachedThresholdVar (note_short s batch) = reachedThresholdVar s"
  "totalFetched (note_short s batch) = totalFetched s"
  "wasFellBack (note_short s batch) = wasFellBack s"
  "hasMore (note_short s batch) = (hasMore s \<and> \<not> length batch < 40)"
  by (simp_all add: note_short_def)

lemma hasMore_fields [simp]:
  "hasMore (note_fallback s fb) = hasMore s"
  "hasMore (process_batch u s batch fb) = hasMore s"
  by (simp_all add: note_fallback_def process_batch_def Let_def)

lemma crawl_loop2_done:
  "\<not> running2 s \<Longrightarrow> crawl_loop2 env svc acc u op s tr = (Inr s, tr)"
  by (subst crawl_loop2.simps) (simp add: running2_def)

lemma crawl_loop2_error:
  assumes "running2 s"
    and "getStatusesPage2 env svc acc (maxId s) 40 tr = (Inl err, tr1)"
  shows "crawl_loop2 env svc acc u op s tr = (Inl err, tr1)"
  using assms by (subst crawl_loop2.simps) (simp add: Let_def running2_def)

lemma crawl_loop2_null:
  assumes "running2 s"
    and "getStatusesPage2 env svc acc (maxId s) 40 tr = (Inr (None, fb), tr1)"
  shows "crawl_loop2 env svc acc u op s tr = (Inl TypeError, tr1)"
  using assms by (subst crawl_loop2.simps) (simp add: Let_def running2_def)

lemma crawl_loop2_empty:
  assumes "running2 s"
    and "getStatusesPage2 env svc acc (maxId s) 40 tr = (Inr (Some [], fb), tr1)"
  shows "crawl_loop2 env svc acc u op s tr = (Inr ((note_fallback s fb)\<lparr>hasMore := False\<rparr>), tr1)"
  using assms by (subst crawl_loop2.simps) (simp add: Let_def note_fallback_def running2_def)

lemma crawl_loop2_stop:
  assumes "running2 s"
    and "getStatusesPage2 env svc acc (maxId s) 40 tr = (Inr (Some batch, fb), tr1)"
    and "batch \<noteq> []" "10000 < totalFetched s + length batch"
  shows "crawl_loop2 env svc acc u op s tr =
           (Inr (note_short (process_batch u s batch fb) batch),
            tr1 @ progress op (length (allFilteredStatuses (process_batch u s batch fb))))"
  using assms
  by (subst crawl_loop2.simps)
     (auto simp: Let_def process_batch_def note_fallback_def note_short_def progress_def running2_def)

lemma crawl_loop2_continue:
  assumes "running2 s"
    and "getStatusesPage2 env svc acc (maxId s) 40 tr = (Inr (Some batch, fb), tr1)"
    and "batch \<noteq> []" "\<not> 10000 < totalFetched s + length batch"
  shows "crawl_loop2 env svc acc u op s tr =
           crawl_loop2 env svc acc u op (note_short (process_batch u s batch fb) batch)
             (tr1 @ progress op (length (allFilteredStatuses (process_batch u s batch fb))))"
  using assms
  by (subst crawl_loop2.simps)
     (auto simp: Let_def process_batch_def note_fallback_def note_short_def progress_def running2_def)

lemma crawl_loop2_induct [case_names Done Error Empty Stop Continue]:
  fixes P :: "session2 \<Rightarrow> mstatus list event list \<Rightarrow> (error + session2) \<times> mstatus list event list \<Rightarrow> bool"
  assumes Done: "\<And>s tr. \<not> running2 s \<Longrightarrow> P s tr (Inr s, tr)"
    and Error: "\<And>s tr err evs. running2 s \<Longrightarrow>
           page_run (page_requests env svc acc (maxId s) 40) 2 evs (Inl err) \<Longrightarrow>
           P s tr (Inl err, tr @ evs)"
    and Empty: "\<And>s tr fb evs. running2 s \<Longrightarrow>
           page_run (page_requests env svc acc (maxId s) 40) 2 evs (Inr (Some [], fb)) \<Longrightarrow>
           P s tr (Inr ((note_fallback s fb)\<lparr>hasMore := False\<rparr>), tr @ evs)"
    and Stop: "\<And>s tr batch fb evs. running2 s \<Longrightarrow>
           page_run (page_requests env svc acc (maxId s) 40) 2 evs (Inr (Some batch, fb)) \<Longrightarrow>
           batch \<noteq> [] \<Longrightarrow> 10000 < totalFetched s + length batch \<Longrightarrow>
           P s tr (Inr (note_short (process_batch u s batch fb) batch),
                   tr @ evs @ progress op (length (allFilteredStatuses (process_batch u s batch fb))))"
    and Continue: "\<And>s tr batch fb evs res. running2 s \<Longrightarrow>
           page_run (page_requests env svc acc (maxId s) 40) 2 evs (Inr (Some batch, fb)) \<Longrightarrow>
           batch \<noteq> [] \<Longrightarrow> totalFetched s + length batch \<le> 10000 \<Longrightarrow>
           P (note_short (process_batch u s batch fb) batch)
             (tr @ evs @ progress op (length (allFilteredStatuses (process_batch u s batch fb)))) res \<Longrightarrow>
           P s tr res"
  shows "P s tr (crawl_loop2 env svc acc u op s tr)"
proof (induction "10001 - totalFetched s" arbitrary: s tr rule: less_induct)
  case less
  show ?case
  proof (cases "running2 s")
    case False
    then show ?thesis by (simp add: crawl_loop2_done Done)
  next
    case run: True
    obtain r tr1 where g: "getStatusesPage2 env svc acc (maxId s) 40 tr = (r, tr1)"
      by fastforce
    from getStatusesPage2_run[of env svc acc "maxId s" 40 tr] g
    obtain evs where e: "tr1 = tr @ evs" "page_run (page_requests env svc acc (maxId s) 40) 2 evs r"
      by auto
    show ?thesis
    proof (cases r)
      case (Inl err)
      then show ?thesis
        using e Error[OF run e(2)[unfolded Inl]]
        by (simp add: crawl_loop2_error[OF run g[unfolded Inl]])
    next
      case (Inr bf)
      obtain page fb where bf: "bf = (page, fb)" by (cases bf)
      show ?thesis
      proof (cases page)
        case None
        then show ?thesis
          using e Error[OF run page_run_null[OF e(2)[unfolded Inr bf None], of TypeError]]
          by (simp add: crawl_loop2_null[OF run g[unfolded Inr bf None]])
      next
      case (Some batch)
      note bf = bf[unfolded Some]
      note pr = e(2)[unfolded Inr bf]
      show ?thesis
      proof (cases "batch = []")
        case True
        then show ?thesis
          using e Empty[OF run pr[unfolded True]]
          by (simp add: crawl_loop2_empty[OF run g[unfolded Inr bf True]])
      next
        case ne: False
        let ?s' = "note_short (process_batch u s batch fb) batch"
        let ?tr2 = "tr1 @ progress op (length (allFilteredStatuses (process_batch u s batch fb)))"
        show ?thesis
        proof (cases "10000 < totalFetched s + length batch")
          case True
          then show ?thesis
            using e Stop[OF run pr ne True]
            by (simp add: crawl_loop2_stop[OF run g[unfolded Inr bf] ne True])
        next
          case False
          have eq: "crawl_loop2 env svc acc u op s tr = crawl_loop2 env svc acc u op ?s' ?tr2"
            by (rule crawl_loop2_continue[OF run g[unfolded Inr bf] ne False])
          have "0 < length batch" using ne by simp
          then have "10001 - totalFetched ?s' < 10001 - totalFetched s"
            using False unfolding note_short_fields process_batch_fields by arith
          from less[OF this, of ?tr2]
          have "P ?s' ?tr2 (crawl_loop2 env svc acc u op ?s' ?tr2)" .
          then have "P s tr (crawl_loop2 env svc acc u op ?s' ?tr2)"
            using Continue[OF run pr ne] False e(1) by simp
          then show ?thesis unfolding eq .
        qed
      qed
      qed
    qed
  qed
qed

lemma crawl_loop2_quiet:
  "\<exists>evs. snd (crawl_loop2 env svc acc u op s tr) = tr @ evs
     \<and> quiet_after_end 10000 u (totalFetched s) (\<not> running2 s) evs"
proof (induction s tr rule: crawl_loop2_induct[where env = env and svc = svc and acc = acc and u = u and op = op])
  case (Done s tr)
  then show ?case by simp
next
  case (Error s tr err evs)
  from quiet_no_pages[OF page_run_pages(2)[OF Error(2)], of 10000 u "totalFetched s" False "[]"] Error(1)
  show ?case by simp
next
  case (Empty s tr fb evs)
  from quiet_iteration[OF Empty(2), of "[]" "[]" 10000 u "totalFetched s" "[]"] Empty(1)
  show ?case by simp
next
  case (Stop s tr batch fb evs)
  let ?prog = "progress op (length (allFilteredStatuses (process_batch u s batch fb)))"
  from quiet_iteration[OF Stop(2), of "[]" ?prog 10000 u "totalFetched s" "[]"] Stop(1)
  show ?case by simp
next
  case (Continue s tr batch fb evs res)
  let ?s' = "note_short (process_batch u s batch fb) batch"
  let ?prog = "progress op (length (allFilteredStatuses (process_batch u s batch fb)))"
  from Continue(5) obtain evs' where
    r: "snd res = (tr @ evs @ ?prog) @ evs'"
       "quiet_after_end 10000 u (totalFetched ?s') (\<not> running2 ?s') evs'"
    by blast
  have h: "ends_crawl 10000 u (totalFetched s) batch = (\<not> running2 ?s')"
    using Continue(1,4) by (auto simp: ends_crawl_def running2_def)
  have "quiet_after_end 10000 u (totalFetched s) False ([] @ evs @ ?prog @ evs')"
    using quiet_iteration[OF Continue(2), of "[]" ?prog 10000 u "totalFetched s" evs'] r(2) h
    by simp
  then show ?case using r(1) Continue(1) by auto
qed

lemma crawl_loop2_summary:
  "\<exists>evs. snd (crawl_loop2 env svc acc u op s tr) = tr @ evs
     \<and> (\<forall>s'. fst (crawl_loop2 env svc acc u op s tr) = Inr s' \<longrightarrow> summary u s s' evs)"
proof (induction s tr rule: crawl_loop2_induct[where env = env and svc = svc and acc = acc and u = u and op = op])
  case (Done s tr)
  then show ?case by (simp add: summary_refl)
next
  case (Error s tr err evs)
  then show ?case by simp
next
  case (Empty s tr fb evs)
  have "summary u s (note_fallback s fb) ([] @ evs)"
    by (rule summary_empty_page[OF Empty(2)]) simp_all
  then have "summary u s ((note_fallback s fb)\<lparr>hasMore := False\<rparr>) evs"
    by (simp add: summary_def)
  then show ?case by simp
next
  case (Stop s tr batch fb evs)
  let ?prog = "progress op (length (allFilteredStatuses (process_batch u s batch fb)))"
  have "summary u s (process_batch u s batch fb) ([] @ evs @ ?prog)"
    by (rule summary_page[OF Stop(2,3)]) simp_all
  then have "summary u s (note_short (process_batch u s batch fb) batch) (evs @ ?prog)"
    by (simp add: summary_def)
  then show ?case by simp
next
  case (Continue s tr batch fb evs res)
  let ?s' = "note_short (process_batch u s batch fb) batch"
  let ?prog = "progress op (length (allFilteredStatuses (process_batch u s batch fb)))"
  from Continue(5) obtain evs' where
    r: "snd res = (tr @ evs @ ?prog) @ evs'"
       "\<forall>s'. fst res = Inr s' \<longrightarrow> summary u ?s' s' evs'"
    by blast
  have "summary u s (process_batch u s batch fb) ([] @ evs @ ?prog)"
    by (rule summary_page[OF Continue(2,3)]) simp_all
  then have one: "summary u s ?s' (evs @ ?prog)"
    by (simp add: summary_def)
  have "\<forall>s'. fst res = Inr s' \<longrightarrow> summary u s s' ((evs @ ?prog) @ evs')"
    using summary_trans[OF one] r(2) by blast
  then show ?case using r(1) by auto
qed

lemma crawl_loop2_requests:
  "\<exists>evs. snd (crawl_loop2 env svc acc u op s tr) = tr @ evs
     \<and> cursor_ok env svc acc (maxId s) evs
     \<and> length (pages evs) \<le> (if running2 s then fetch_budget 10000 (totalFetched s) else 0)
     \<and> length (requests evs) \<le> 2 * (if running2 s then fetch_budget 10000 (totalFetched s) else 0)"
proof (induction s tr rule: crawl_loop2_induct[where env = env and svc = svc and acc = acc and u = u and op = op])
  case (Done s tr)
  then show ?case by simp
next
  case (Error s tr err evs)
  have "length (requests evs) \<le> 2" "pages evs = []"
    using Error(2) by (auto simp: page_run_def)
  then show ?case
    using cursor_ok_page_run[OF Error(2)] Error(1) by (simp add: fetch_budget_def)
next
  case (Empty s tr fb evs)
  have "length (requests evs) \<le> 2" "pages evs = [[]]"
    using Empty(2) page_run_pages(1)[OF Empty(2)] by (auto simp: page_run_def)
  then show ?case
    using cursor_ok_page_run[OF Empty(2)] Empty(1) by (simp add: fetch_budget_def)
next
  case (Stop s tr batch fb evs)
  let ?prog = "progress op (length (allFilteredStatuses (process_batch u s batch fb)))"
  have "cursor_ok env svc acc (maxId s) (evs @ ?prog)"
    unfolding cursor_ok_append[of _ _ _ _ evs]
    using cursor_ok_page_run[OF Stop(2)] cursor_ok_quiet_events[of ?prog env svc acc _ "[]"]
    by simp
  moreover have "length (requests evs) \<le> 2" "pages evs = [batch]"
    using Stop(2) page_run_pages(1)[OF Stop(2)] by (auto simp: page_run_def)
  ultimately show ?case using Stop(1) by (simp add: fetch_budget_def)
next
  case (Continue s tr batch fb evs res)
  let ?s' = "note_short (process_batch u s batch fb) batch"
  let ?prog = "progress op (length (allFilteredStatuses (process_batch u s batch fb)))"
  let ?b' = "if running2 ?s' then fetch_budget 10000 (totalFetched ?s') else 0"
  from Continue(5) obtain evs' where
    r: "snd res = (tr @ evs @ ?prog) @ evs'"
       "cursor_ok env svc acc (maxId ?s') evs'"
       "length (pages evs') \<le> ?b'"
       "length (requests evs') \<le> 2 * ?b'"
    by blast
  have pg: "length (requests evs) \<le> 2" "pages evs = [batch]"
    using Continue(2) page_run_pages(1)[OF Continue(2)] by (auto simp: page_run_def)
  have c2: "cursor_after (maxId s) (pages evs) = maxId ?s'"
    using pg(2) Continue(3) by simp
  have ok: "cursor_ok env svc acc (maxId s) (evs @ ?prog @ evs')"
    unfolding cursor_ok_append[of _ _ _ _ evs] c2
    using cursor_ok_page_run[OF Continue(2)] r(2) cursor_ok_quiet_events[of ?prog env svc acc "maxId ?s'" evs']
    by simp
  have bud: "Suc ?b' \<le> fetch_budget 10000 (totalFetched s)"
  proof (cases "running2 ?s'")
    case True
    then have "40 \<le> length batch" by (simp add: running2_def)
    then show ?thesis
      using True Continue(4) unfolding fetch_budget_def by simp
  next
    case False
    then show ?thesis by (simp add: fetch_budget_def)
  qed
  have np: "length (pages (evs @ ?prog @ evs')) \<le> fetch_budget 10000 (totalFetched s)"
    using pg(2) r(3) bud by simp
  have nr: "length (requests (evs @ ?prog @ evs')) \<le> 2 * fetch_budget 10000 (totalFetched s)"
    using pg(1) r(4) bud by simp
  from ok np nr r(1) Continue(1) show ?case by auto
qed

subsection \<open>Facts about a whole call\<close>

lemma quiet_append:
  "quiet_after_end cap u n h (a @ b) =
     (quiet_after_end cap u n h a \<and>
      quiet_after_end cap u (n + length (concat (pages a))) (h \<or> ended cap u n (pages a)) b)"
proof (induction a arbitrary: n h)
  case Nil
  then show ?case by simp
next
  case (Cons e a)
  show ?case
  proof (cases "page_of e")
    case None
    then show ?thesis using Cons by (simp add: pages_Cons)
  next
    case (Some p)
    then show ?thesis using Cons[of "n + length p" "h \<or> ends_crawl cap u n p"]
      by (auto simp: pages_Cons add.assoc)
  qed
qed

lemma quiet_split:
  assumes "quiet_after_end cap u n False (a @ b)" "ended cap u n (pages a)"
  shows "requests b = []"
  using assms by (simp add: quiet_append quiet_halted)

lemma ended_short: "\<exists>p\<in>set ps. length p < 40 \<Longrightarrow> ended cap u n ps"
  by (induction ps arbitrary: n) (auto simp: ends_crawl_def)

lemma ended_cap: "cap < n + length (concat ps) \<Longrightarrow> n \<le> cap \<Longrightarrow> ended cap u n ps"
proof (induction ps arbitrary: n)
  case Nil
  then show ?case by simp
next
  case (Cons p ps)
  show ?case
  proof (cases "cap < n + length p")
    case True
    then show ?thesis by (simp add: ends_crawl_def)
  next
    case False
    then have "ended cap u (n + length p) ps"
      using Cons.prems by (intro Cons.IH) simp_all
    then show ?thesis by simp
  qed
qed

lemma not_ended:
  assumes "\<not> ended cap u n ps"
  shows "\<forall>p\<in>set ps. 40 \<le> length p \<and> \<not> date_lt (created_at (last p)) u"
    and "ps \<noteq> [] \<or> n \<le> cap \<Longrightarrow> n + length (concat ps) \<le> cap"
  using assms
proof (induction ps arbitrary: n)
  case Nil
  { case 1 then show ?case by simp }
  { case 2 then show ?case by simp }
next
  case (Cons p ps)
  { case 1
    then show ?case using Cons(1)[of "n + length p"] by (auto simp: ends_crawl_def) }
  { case 2
    then have a: "\<not> cap < n + length p" "\<not> ended cap u (n + length p) ps"
      by (auto simp: ends_crawl_def)
    then have "(n + length p) + length (concat ps) \<le> cap"
      using Cons(2)[of "n + length p"] by simp
    then show ?case by (simp add: add.assoc) }
qed

lemma pages_split:
  "pages evs = ps @ q # qs \<Longrightarrow>
   \<exists>a e b. evs = a @ e # b \<and> pages a = ps \<and> page_of e = Some q \<and> pages b = qs"
proof (induction evs arbitrary: ps)
  case Nil
  then show ?case by simp
next
  case (Cons x evs)
  show ?case
  proof (cases "page_of x")
    case None
    then have "pages evs = ps @ q # qs" using Cons.prems by (simp add: pages_Cons)
    from Cons.IH[OF this] obtain a e b where
      "evs = a @ e # b" "pages a = ps" "page_of e = Some q" "pages b = qs" by blast
    then have "x # evs = (x # a) @ e # b \<and> pages (x # a) = ps \<and> page_of e = Some q \<and> pages b = qs"
      using None by (simp add: pages_Cons)
    then show ?thesis by blast
  next
    case (Some p)
    then have pe: "p # pages evs = ps @ q # qs" using Cons.prems by (simp add: pages_Cons)
    show ?thesis
    proof (cases ps)
      case Nil
      then have "x # evs = [] @ x # evs \<and> pages [] = ps \<and> page_of x = Some q \<and> pages evs = qs"
        using pe Some by simp
      then show ?thesis by blast
    next
      case (Cons p' ps')
      then have "pages evs = ps' @ q # qs" "p' = p" using pe by simp_all
      from Cons.IH[OF this(1)] obtain a e b where
        "evs = a @ e # b" "pages a = ps'" "page_of e = Some q" "pages b = qs" by blast
      then have "x # evs = (x # a) @ e # b \<and> pages (x # a) = ps \<and> page_of e = Some q \<and> pages b = qs"
        using Some Cons \<open>p' = p\<close> by (simp add: pages_Cons)
      then show ?thesis by blast
    qed
  qed
qed

lemma quiet_pages:
  assumes q: "quiet_after_end cap u n False evs" and p: "pages evs = ps @ q # qs"
  shows "\<not> ended cap u n ps"
    and "ends_crawl cap u (n + length (concat ps)) q \<Longrightarrow> qs = []"
proof -
  from pages_split[OF p] obtain a e b where
    s: "evs = a @ e # b" "pages a = ps" "page_of e = Some q" "pages b = qs" by blast
  have r: "request_of e \<noteq> None" using s(3) by (rule page_of_request)
  from q s show ne: "\<not> ended cap u n ps"
    using r by (auto simp: quiet_append)
  assume "ends_crawl cap u (n + length (concat ps)) q"
  then have "quiet_after_end cap u (n + length (concat ps) + length q) True b"
    using q s ne by (simp add: quiet_append)
  then have "requests b = []" by (simp add: quiet_halted)
  then show "qs = []" using s(4) requests_Nil_pages by blast
qed

lemma getStatusesUntil_loop:
  "getStatusesUntil env svc acc u start op tr =
     (map_sum (\<lambda>e. e) result_of
        (fst (crawl_loop env svc acc u op (now env tr) (initial_session start) (tr @ [Clock (now env tr)]))),
      snd (crawl_loop env svc acc u op (now env tr) (initial_session start) (tr @ [Clock (now env tr)])))"
proof -
  obtain r t where
    L: "crawl_loop env svc acc u op (now env tr) (initial_session start) (tr @ [Clock (now env tr)]) = (r, t)"
    by fastforce
  show ?thesis
    unfolding L using L[unfolded initial_session_def]
    by (cases r) (simp_all add: getStatusesUntil_def Let_def result_of_def)
qed

lemma getStatusesUntil2_loop:
  "getStatusesUntil2 env svc acc u start op tr =
     (map_sum (\<lambda>e. e) result_of (fst (crawl_loop2 env svc acc u op (initial_session2 start) tr)),
      snd (crawl_loop2 env svc acc u op (initial_session2 start) tr))"
proof -
  obtain r t where
    L: "crawl_loop2 env svc acc u op (initial_session2 start) tr = (r, t)"
    by fastforce
  show ?thesis
    unfolding L using L[unfolded initial_session2_def]
    by (cases r) (simp_all add: getStatusesUntil2_def Let_def result_of_def)
qed

lemma initial_fields [simp]:
  "allFilteredStatuses (initial_session c) = []" "maxId (initial_session c) = c"
  "reachedThresholdVar (initial_session c) = False" "totalFetched (initial_session c) = 0"
  "wasFellBack (initial_session c) = False"
  "allFilteredStatuses (initial_session2 c) = []" "maxId (initial_session2 c) = c"
  "reachedThresholdVar (initial_session2 c) = False" "totalFetched (initial_session2 c) = 0"
  "wasFellBack (initial_session2 c) = False" "running2 (initial_session2 c)"
  by (simp_all add: initial_session_def initial_session2_def running2_def)

lemma result_fields [simp]:
  "statuses (result_of s) = allFilteredStatuses s" "lastId (result_of s) = maxId s"
  "reachedThreshold (result_of s) = reachedThresholdVar s" "fellBack (result_of s) = wasFellBack s"
  by (simp_all add: result_of_def)

lemma getStatusesUntil_session:
  "\<exists>evs. snd (getStatusesUntil env svc acc u start op tr) = tr @ evs
     \<and> session_facts 5000 6 env svc acc u start evs (fst (getStatusesUntil env svc acc u start op tr))"
proof -
  let ?t0 = "now env tr"
  let ?L = "crawl_loop env svc acc u op ?t0 (initial_session start) (tr @ [Clock ?t0])"
  obtain evs where e: "snd ?L = (tr @ [Clock ?t0]) @ evs"
      "quiet_after_end 5000 u (totalFetched (initial_session start))
         (reachedThresholdVar (initial_session start)) evs"
    using crawl_loop_quiet[of env svc acc u op ?t0 "initial_session start" "tr @ [Clock ?t0]"] by blast
  obtain evs1 where e1: "snd ?L = (tr @ [Clock ?t0]) @ evs1"
      "\<forall>s'. fst ?L = Inr s' \<longrightarrow> summary u (initial_session start) s' evs1"
    using crawl_loop_summary[of env svc acc u op ?t0 "initial_session start" "tr @ [Clock ?t0]"] by blast
  obtain evs2 where e2: "snd ?L = (tr @ [Clock ?t0]) @ evs2"
      "cursor_ok env svc acc (maxId (initial_session start)) evs2"
      "length (pages evs2) \<le> fetch_budget 5000 (totalFetched (initial_session start))"
      "length (requests evs2) \<le> 6 * fetch_budget 5000 (totalFetched (initial_session start))"
    using crawl_loop_requests[of env svc acc u op ?t0 "initial_session start" "tr @ [Clock ?t0]"] by blast
  have same: "evs1 = evs" "evs2 = evs" using e(1) e1(1) e2(1) by simp_all
  have sn: "snd (getStatusesUntil env svc acc u start op tr) = tr @ Clock ?t0 # evs"
    using e(1) by (simp add: getStatusesUntil_loop)
  have fs: "\<And>res. fst (getStatusesUntil env svc acc u start op tr) = Inr res \<Longrightarrow>
              \<exists>s'. fst ?L = Inr s' \<and> res = result_of s'"
    by (cases "fst ?L") (auto simp: getStatusesUntil_loop)
  have "session_facts 5000 6 env svc acc u start (Clock ?t0 # evs)
          (fst (getStatusesUntil env svc acc u start op tr))"
    unfolding session_facts_def
  proof (intro conjI allI impI)
    show "quiet_after_end 5000 u 0 False (Clock ?t0 # evs)" using e(2) by simp
    show "cursor_ok env svc acc start (Clock ?t0 # evs)" using e2(2) same by simp
    show "length (pages (Clock ?t0 # evs)) \<le> fetch_budget 5000 0" using e2(3) same by simp
    show "length (requests (Clock ?t0 # evs)) \<le> 6 * fetch_budget 5000 0" using e2(4) same by simp
  next
    fix res assume "fst (getStatusesUntil env svc acc u start op tr) = Inr res"
    from fs[OF this] obtain s' where s': "fst ?L = Inr s'" "res = result_of s'" by blast
    then have sm: "summary u (initial_session start) s' evs" using e1(2) same by simp
    show "statuses res = filter (\<lambda>p. \<not> reblog p) (concat (pages (Clock ?t0 # evs)))"
      using sm s'(2) by (simp add: summary_def)
    show "lastId res = cursor_after start (pages (Clock ?t0 # evs))"
      using sm s'(2) by (simp add: summary_def)
    show "reachedThreshold res =
            (\<exists>p\<in>set (pages (Clock ?t0 # evs)). p \<noteq> [] \<and> date_lt (created_at (last p)) u)"
      using sm s'(2) by (simp add: summary_def)
    show "fellBack res = (\<exists>x\<in>set (Clock ?t0 # evs). denied x)"
      using sm s'(2) by (simp add: summary_def)
  qed
  then show ?thesis using sn by blast
qed

lemma getStatusesUntil2_session:
  "\<exists>evs. snd (getStatusesUntil2 env svc acc u start op tr) = tr @ evs
     \<and> session_facts 10000 2 env svc acc u start evs (fst (getStatusesUntil2 env svc acc u start op tr))"
proof -
  let ?L = "crawl_loop2 env svc acc u op (initial_session2 start) tr"
  obtain evs where e: "snd ?L = tr @ evs"
      "quiet_after_end 10000 u (totalFetched (initial_session2 start))
         (\<not> running2 (initial_session2 start)) evs"
    using crawl_loop2_quiet[of env svc acc u op "initial_session2 start" tr] by blast
  obtain evs1 where e1: "snd ?L = tr @ evs1"
      "\<forall>s'. fst ?L = Inr s' \<longrightarrow> summary u (initial_session2 start) s' evs1"
    using crawl_loop2_summary[of env svc acc u op "initial_session2 start" tr] by blast
  obtain evs2 where e2: "snd ?L = tr @ evs2"
      "cursor_ok env svc acc (maxId (initial_session2 start)) evs2"
      "length (pages evs2) \<le> (if running2 (initial_session2 start)
           then fetch_budget 10000 (totalFetched (initial_session2 start)) else 0)"
      "length (requests evs2) \<le> 2 * (if running2 (initial_session2 start)
           then fetch_budget 10000 (totalFetched (initial_session2 start)) else 0)"
    using crawl_loop2_requests[of env svc acc u op "initial_session2 start" tr] by blast
  have same: "evs1 = evs" "evs2 = evs" using e(1) e1(1) e2(1) by simp_all
  have sn: "snd (getStatusesUntil2 env svc acc u start op tr) = tr @ evs"
    using e(1) by (simp add: getStatusesUntil2_loop)
  have fs: "\<And>res. fst (getStatusesUntil2 env svc acc u start op tr) = Inr res \<Longrightarrow>
              \<exists>s'. fst ?L = Inr s' \<and> res = result_of s'"
    by (cases "fst ?L") (auto simp: getStatusesUntil2_loop)
  have "session_facts 10000 2 env svc acc u start evs
          (fst (getStatusesUntil2 env svc acc u start op tr))"
    unfolding session_facts_def
  proof (intro conjI allI impI)
    show "quiet_after_end 10000 u 0 False evs" using e(2) by simp
    show "cursor_ok env svc acc start evs" using e2(2) same by simp
    show "length (pages evs) \<le> fetch_budget 10000 0" using e2(3) same by simp
    show "length (requests evs) \<le> 2 * fetch_budget 10000 0" using e2(4) same by simp
  next
    fix res assume "fst (getStatusesUntil2 env svc acc u start op tr) = Inr res"
    from fs[OF this] obtain s' where s': "fst ?L = Inr s'" "res = result_of s'" by blast
    then have sm: "summary u (initial_session2 start) s' evs" using e1(2) same by simp
    show "statuses res = filter (\<lambda>p. \<not> reblog p) (concat (pages evs))"
      using sm s'(2) by (simp add: summary_def)
    show "lastId res = cursor_after start (pages evs)"
      using sm s'(2) by (simp add: summary_def)
    show "reachedThreshold res =
            (\<exists>p\<in>set (pages evs). p \<noteq> [] \<and> date_lt (created_at (last p)) u)"
      using sm s'(2) by (simp add: summary_def)
    show "fellBack res = (\<exists>x\<in>set evs. denied x)"
      using sm s'(2) by (simp add: summary_def)
  qed
  then show ?thesis using sn by blast
qed

subsection \<open>Runs in the example environments\<close>

lemma toString_40 [simp]: "toString 40 = ''40''"
  by simp

lemmas run_simps =
  fetchApi.simps crawl_loop.simps crawl_loop2.simps getStatusesUntil_def getStatusesUntil2_def
  getStatusesPage_def getStatusesPage2_def fetchApi2_def make_request_def endpoint_url_def page_params_def
  Let_def ok_def ok_response_def svc_token_def svc_anon_def

lemma small_run:
  "getStatusesUntil env_small svc_token ''7'' (Some 100) None True [] =
     (Inr \<lparr>statuses = [post_a], lastId = Some ''102'', reachedThreshold = False, fellBack = False\<rparr>,
      [Clock 0, Clock 0, Fetch req_small (Response (ok_response [post_a, post_b])), Progress 1])"
  by (simp add: run_simps env_small_def req_small_def post_a_def post_b_def)

lemma small_run2:
  "getStatusesUntil2 env_small svc_token ''7'' (Some 100) None True [] =
     (Inr \<lparr>statuses = [post_a], lastId = Some ''102'', reachedThreshold = False, fellBack = False\<rparr>,
      [Fetch req_small (Response (ok_response [post_a, post_b])), Progress 1])"
  by (simp add: run_simps env_small_def req_small_def post_a_def post_b_def)

lemma env_denied_run:
  "getStatusesUntil env_denied svc_token ''7'' (Some 100) None False [] =
     (Inr \<lparr>statuses = [], lastId = None, reachedThreshold = False, fellBack = True\<rparr>,
      [Clock 0, Clock 0,
       Fetch req_small (Response \<lparr>status = 403, retryAfter = None,
                                   body = Parsed (Some ''This action is not allowed'') []\<rparr>),
       Fetch (req_small\<lparr>headers := [(''Content-Type'', ''application/json'')]\<rparr>)
         (Response (ok_response []))])"
  by (simp add: run_simps env_denied_def req_small_def http_error_def)

lemma env_denied_run2:
  "getStatusesUntil2 env_denied svc_token ''7'' (Some 100) None False [] =
     (Inr \<lparr>statuses = [], lastId = None, reachedThreshold = False, fellBack = True\<rparr>,
      [Fetch req_small (Response \<lparr>status = 403, retryAfter = None,
                                   body = Parsed (Some ''This action is not allowed'') []\<rparr>),
       Warn PermissionFallback,
       Fetch (req_small\<lparr>headers := [(''Content-Type'', ''application/json'')]\<rparr>)
         (Response (ok_response []))])"
  by (simp add: run_simps env_denied_def req_small_def http_error_def)

lemma reached_by_last_page:
  assumes q: "quiet_after_end cap u 0 False evs" and c: "cap < length (concat (pages evs))"
  shows "pages evs \<noteq> [] \<and> last (pages evs) \<noteq> []
       \<and> (\<exists>p\<in>set (pages evs). p \<noteq> [] \<and> date_lt (created_at (last p)) u)
           = date_lt (created_at (last (last (pages evs)))) u"
proof -
  have ne: "pages evs \<noteq> []" using c by auto
  then obtain ps q' where p: "pages evs = ps @ [q']" by (cases "pages evs" rule: rev_cases) auto
  from quiet_pages(1)[OF q, of ps q' "[]"] p have n: "\<not> ended cap u 0 ps" by simp
  have a: "\<forall>p\<in>set ps. \<not> date_lt (created_at (last p)) u"
    using not_ended(1)[OF n] by blast
  have "0 + length (concat ps) \<le> cap" using not_ended(2)[OF n] by simp
  then have q'ne: "q' \<noteq> []" using c p by auto
  show ?thesis using p a q'ne by auto
qed

lemma page_at_facts [simp]:
  "length (page_at k) = 40" "page_at k \<noteq> []" "last (page_at k) = post_no (40 * k + 39)"
  "filter (\<lambda>p. \<not> reblog p) (page_at k) = page_at k"
proof -
  show "length (page_at k) = 40" by (simp add: page_at_def)
  then show "page_at k \<noteq> []" by auto
  show "last (page_at k) = post_no (40 * k + 39)"
    by (simp add: page_at_def last_map)
  show "filter (\<lambda>p. \<not> reblog p) (page_at k) = page_at k"
    by (simp add: page_at_def post_no_def filter_map comp_def)
qed

lemma env_long_page:
  "getStatusesPage2 env_long svc acc c 40 tr =
     (Inr (Some (page_at (length (pages tr))), False),
      tr @ [Fetch (make_request (endpoint_url svc (''accounts/'' @ acc @ ''/statuses'')) svc
                     (page_params c 40) True)
              (Response (ok_response (page_at (length (pages tr)))))])"
  by (simp add: getStatusesPage2_def fetchApi2_def env_long_def ok_def ok_response_def Let_def)

lemma long_run:
  assumes "k \<le> 250" "running2 s" "totalFetched s = 40 * k" "length (pages tr) = k"
  shows "\<exists>s'. fst (crawl_loop2 env_long svc acc (Some 2) False s tr) = Inr s'
           \<and> allFilteredStatuses s' = allFilteredStatuses s @ concat (map page_at [k..<251])
           \<and> maxId s' = Some (id_str (post_no 10039))
           \<and> reachedThresholdVar s' \<and> totalFetched s' = 10040
           \<and> wasFellBack s' = wasFellBack s"
  using assms
proof (induction "250 - k" arbitrary: k s tr)
  case 0
  then have k: "k = 250" by simp
  let ?req = "make_request (endpoint_url svc (''accounts/'' @ acc @ ''/statuses'')) svc
                (page_params (maxId s) 40) True"
  have g: "getStatusesPage2 env_long svc acc (maxId s) 40 tr =
             (Inr (Some (page_at 250), False), tr @ [Fetch ?req (Response (ok_response (page_at 250)))])"
    using "0.prems"(4) k by (simp add: env_long_page)
  have "crawl_loop2 env_long svc acc (Some 2) False s tr =
          (Inr (note_short (process_batch (Some 2) s (page_at 250) False) (page_at 250)),
           (tr @ [Fetch ?req (Response (ok_response (page_at 250)))])
             @ progress False (length (allFilteredStatuses (process_batch (Some 2) s (page_at 250) False))))"
    using "0.prems"(3) k by (intro crawl_loop2_stop[OF "0.prems"(2) g]) simp_all
  moreover have "[250..<251] = [250::nat]" by (simp add: upt_conv_Cons)
  ultimately show ?case using "0.prems"(3) k by (simp add: post_no_def)
next
  case (Suc n)
  then have k: "k < 250" by simp
  let ?req = "make_request (endpoint_url svc (''accounts/'' @ acc @ ''/statuses'')) svc
                (page_params (maxId s) 40) True"
  let ?tr1 = "tr @ [Fetch ?req (Response (ok_response (page_at k)))]"
  let ?s1 = "note_short (process_batch (Some 2) s (page_at k) False) (page_at k)"
  have g: "getStatusesPage2 env_long svc acc (maxId s) 40 tr = (Inr (Some (page_at k), False), ?tr1)"
    using Suc.prems(4) by (simp add: env_long_page)
  have eq: "crawl_loop2 env_long svc acc (Some 2) False s tr =
            crawl_loop2 env_long svc acc (Some 2) False ?s1
              (?tr1 @ progress False (length (allFilteredStatuses (process_batch (Some 2) s (page_at k) False))))"
    using Suc.prems(3) k by (intro crawl_loop2_continue[OF Suc.prems(2) g]) simp_all
  have run: "running2 ?s1"
    using Suc.prems(2) k by (simp add: running2_def post_no_def)
  have tot: "totalFetched ?s1 = 40 * Suc k" using Suc.prems(3) by simp
  have len: "length (pages (?tr1 @ progress False
               (length (allFilteredStatuses (process_batch (Some 2) s (page_at k) False))))) = Suc k"
    using Suc.prems(4) by (simp add: pages_Cons ok_def ok_response_def)
  have n: "n = 250 - Suc k" using Suc.hyps(2) by simp
  have sk: "Suc k \<le> 250" using k by simp
  from Suc.hyps(1)[OF n sk run tot len]
  obtain s' where s': "fst (crawl_loop2 env_long svc acc (Some 2) False ?s1
              (?tr1 @ progress False (length (allFilteredStatuses (process_batch (Some 2) s (page_at k) False)))))
           = Inr s'"
      "allFilteredStatuses s' = allFilteredStatuses ?s1 @ concat (map page_at [Suc k..<251])"
      "maxId s' = Some (id_str (post_no 10039))" "reachedThresholdVar s'"
      "totalFetched s' = 10040" "wasFellBack s' = wasFellBack ?s1"
    by blast
  have "[k..<251] = k # [Suc k..<251]" using k by (simp add: upt_conv_Cons)
  then show ?case using s' unfolding eq by simp
qed

lemma long_result:
  "fst (getStatusesUntil2 env_long svc acc (Some 2) None False []) =
     Inr \<lparr>statuses = concat (map page_at [0..<251]), lastId = Some (id_str (post_no 10039)),
          reachedThreshold = True, fellBack = False\<rparr>"
proof -
  from long_run[of 0 "initial_session2 None" "[]" svc acc]
  obtain s' where s': "fst (crawl_loop2 env_long svc acc (Some 2) False (initial_session2 None) []) = Inr s'"
      "allFilteredStatuses s' = concat (map page_at [0..<251])"
      "maxId s' = Some (id_str (post_no 10039))" "reachedThresholdVar s'"
      "totalFetched s' = 10040" "\<not> wasFellBack s'"
    by auto
  then show ?thesis by (simp add: getStatusesUntil2_loop result_of_def)
qed

lemma long_total:
  "length (concat (pages (snd (getStatusesUntil2 env_long svc acc (Some 2) None False [])))) = 10040"
proof -
  let ?L = "crawl_loop2 env_long svc acc (Some 2) False (initial_session2 None) []"
  from long_run[of 0 "initial_session2 None" "[]" svc acc]
  obtain s' where s': "fst ?L = Inr s'" "totalFetched s' = 10040" by auto
  from crawl_loop2_summary[of env_long svc acc "Some 2" False "initial_session2 None" "[]"] s'(1)
  obtain evs where "snd ?L = [] @ evs" "summary (Some 2) (initial_session2 None) s' evs" by auto
  then show ?thesis using s'(2) by (simp add: getStatusesUntil2_loop summary_def)
qed

lemma burst_run:
  "getStatusesUntil env_burst svc_anon ''7'' (Some 100) None False [] =
     (Inr \<lparr>statuses = replicate 10001 post_old, lastId = Some ''9'', reachedThreshold = True,
           fellBack = False\<rparr>,
      [Clock 0, Clock 0,
       Fetch (req_small\<lparr>headers := [(''Content-Type'', ''application/json'')]\<rparr>)
         (Response (ok_response (replicate 10001 post_old)))])"
  by (simp add: run_simps env_burst_def req_small_def post_old_def)

lemma burst_run2:
  "getStatusesUntil2 env_burst svc_anon ''7'' (Some 100) None False [] =
     (Inr \<lparr>statuses = replicate 10001 post_old, lastId = Some ''9'', reachedThreshold = True,
           fellBack = False\<rparr>,
      [Fetch (req_small\<lparr>headers := [(''Content-Type'', ''application/json'')]\<rparr>)
         (Response (ok_response (replicate 10001 post_old)))])"
  by (simp add: run_simps env_burst_def req_small_def post_old_def)

subsection \<open>The cursor\<close>

lemma page_requests_params:
  "req \<in> page_requests env svc acc c limit \<Longrightarrow> searchParams req = page_params c limit"
  by (auto simp: page_requests_def make_request_def split: option.splits)

lemma cursor_ok_request:
  assumes "cursor_ok env svc acc c (a @ Fetch req out # b)"
  shows "searchParams req = page_params (cursor_after c (pages a)) 40"
  using assms by (auto simp: cursor_ok_append dest: page_requests_params)

lemma cursor_after_snoc:
  "p \<noteq> [] \<Longrightarrow> cursor_after c (ps @ [p]) = Some (id_str (last p))"
  by simp

lemma max_id_param:
  "c \<noteq> [] \<Longrightarrow> map_of (page_params (Some c) limit) ''max_id'' = Some c"
  by (simp add: page_params_def)

lemma cursor_values_Cons:
  "cursor_values c ([] # ps) = cursor_values c ps"
  "p \<noteq> [] \<Longrightarrow> id_str (last p) \<noteq> [] \<Longrightarrow>
     cursor_values c (p # ps) =
       (case c of Some c0 \<Rightarrow> if c0 \<noteq> [] then [c0] else [] | None \<Rightarrow> [])
         @ cursor_values (Some (id_str (last p))) ps"
  by (simp_all add: cursor_values_def)

lemma cursors_descend:
  assumes trans: "\<forall>x y z. older x y \<longrightarrow> older y z \<longrightarrow> older x z"
  shows "cursor_ok env svc acc c evs \<Longrightarrow> list_all (honours_max_id older) evs \<Longrightarrow>
         (\<forall>p\<in>set (pages evs). \<forall>x\<in>set p. id_str x \<noteq> []) \<Longrightarrow>
         sorted_wrt (\<lambda>x y. older y x) (cursor_values c (pages evs))"
proof (induction evs arbitrary: c)
  case Nil
  then show ?case by (simp add: cursor_values_def split: option.splits)
next
  case (Cons e es)
  show ?case
  proof (cases "page_of e")
    case None
    then have "cursor_ok env svc acc c es" using Cons.prems(1) by (simp add: pages_Cons)
    from Cons.IH[OF this] Cons.prems(2,3) None show ?thesis by (simp add: pages_Cons)
  next
    case (Some p)
    then obtain req out where e: "e = Fetch req out" by (cases e) auto
    have rq: "searchParams req = page_params c 40"
      using Cons.prems(1) e by (auto dest: page_requests_params)
    show ?thesis
    proof (cases "p = []")
      case True
      then have "cursor_ok env svc acc c es" using Cons.prems(1) Some by (simp add: pages_Cons)
      from Cons.IH[OF this] Cons.prems(2,3) Some True show ?thesis
        by (simp add: pages_Cons cursor_values_Cons)
    next
      case False
      let ?c' = "Some (id_str (last p))"
      have idne: "id_str (last p) \<noteq> []"
        using Cons.prems(3) Some False by (simp add: pages_Cons)
      have "cursor_ok env svc acc ?c' es"
        using Cons.prems(1) Some False by (simp add: pages_Cons)
      from Cons.IH[OF this] Cons.prems(2,3) Some
      have ih: "sorted_wrt (\<lambda>x y. older y x) (cursor_values ?c' (pages es))"
        by (simp add: pages_Cons)
      have cv: "cursor_values ?c' (pages es) =
                  id_str (last p) # map (\<lambda>p. id_str (last p)) (filter (\<lambda>p. p \<noteq> []) (pages es))"
        using idne by (simp add: cursor_values_def)
      have split: "cursor_values c (pages (e # es)) =
                  (case c of Some c0 \<Rightarrow> if c0 \<noteq> [] then [c0] else [] | None \<Rightarrow> [])
                    @ cursor_values ?c' (pages es)"
        using Some False idne by (simp add: pages_Cons cursor_values_Cons)
      show ?thesis
      proof (cases "truthy c")
        case False
        then show ?thesis using ih split by (cases c) auto
      next
        case True
        then obtain c0 where c0: "c = Some c0" "c0 \<noteq> []" by (cases c) auto
        have "list_all (\<lambda>x. older (id_str x) c0) p"
          using Cons.prems(2) e Some rq c0 by (simp add: max_id_param)
        then have h: "older (id_str (last p)) c0"
          using \<open>p \<noteq> []\<close> by (simp add: list_all_iff)
        have "\<forall>y\<in>set (cursor_values ?c' (pages es)). older y c0"
        proof
          fix y assume y: "y \<in> set (cursor_values ?c' (pages es))"
          show "older y c0"
          proof (cases "y = id_str (last p)")
            case True
            then show ?thesis using h by simp
          next
            case False
            then have "older y (id_str (last p))" using ih y unfolding cv by auto
            then show ?thesis using h trans by blast
          qed
        qed
        then show ?thesis using ih split c0 by (simp add: sorted_wrt_append)
      qed
    qed
  qed
qed

lemma post_ids [simp]: "id_str (post_no 39) = ''19961''" "id_str (post_no 40) = ''19960''"
  by (simp_all add: post_no_def)

lemma two_run:
  "getStatusesUntil env_two svc_anon ''7'' (Some 0) None False [] =
     (Inr \<lparr>statuses = page_at 0 @ [post_no 40], lastId = Some ''19960'',
           reachedThreshold = False, fellBack = False\<rparr>,
      [Clock 0, Clock 0, Fetch req_first (Response (ok_response (page_at 0))),
       Sleep (Num 200), Clock 0, Fetch req_second (Response (ok_response [post_no 40]))])"
proof -
  have d: "created_at (post_no 39) = Some 10001" "created_at (post_no 40) = Some 10000"
          "reblog (post_no 40) = False"
    by (simp_all add: post_no_def)
  show ?thesis
    by (simp add: run_simps env_two_def req_first_def req_second_def d)
qed

lemma two_run2:
  "getStatusesUntil2 env_two svc_anon ''7'' (Some 0) None False [] =
     (Inr \<lparr>statuses = page_at 0 @ [post_no 40], lastId = Some ''19960'',
           reachedThreshold = False, fellBack = False\<rparr>,
      [Fetch req_first (Response (ok_response (page_at 0))),
       Fetch req_second (Response (ok_response [post_no 40]))])"
proof -
  have d: "created_at (post_no 39) = Some 10001" "created_at (post_no 40) = Some 10000"
          "reblog (post_no 40) = False"
    by (simp_all add: post_no_def)
  show ?thesis
    by (simp add: run_simps env_two_def req_first_def req_second_def d)
qed

lemma toString_not_Nil: "toString n \<noteq> []"
  by (subst toString.simps) simp

lemma older_id_trans: "\<forall>x y z. older_id x y \<longrightarrow> older_id y z \<longrightarrow> older_id x z"
  by (auto simp: older_id_def split: jsnum.splits)

lemma parseInt_ids [simp]: "parseInt ''19961'' = Num 19961" "parseInt ''19960'' = Num 19960"
  by (simp_all add: parseInt_def read_digits_def digit_val_def is_space_def exact_def)

subsection \<open>Retries and the exchange of one call\<close>

lemma fetches_Nil [simp]: "fetches [] = []"
  by (simp add: fetches_def)

lemma fetches_Cons [simp]:
  "fetches (Fetch req out # es) = (req, out) # fetches es"
  "fetches (Warn m # es) = fetches es" "fetches (Sleep w # es) = fetches es"
  "fetches (Clock t # es) = fetches es" "fetches (Progress n # es) = fetches es"
  by (simp_all add: fetches_def)

lemma fetches_append [simp]: "fetches (a @ b) = fetches a @ fetches b"
  by (induction a) (simp_all add: fetches_def List.map_filter_simps split: option.splits)

lemma fetchApi2_settle:
  assumes "parse_url env (endpoint_url svc ep) = Some u"
  shows "fetchApi2 env svc ep ps ua tr =
           (settle (respond env tr (make_request u svc ps ua)),
            tr @ [Fetch (make_request u svc ps ua) (respond env tr (make_request u svc ps ua))])"
  using assms by (simp add: fetchApi2_def settle_def Let_def split: outcome.splits body.splits)

lemma fetchApi_final:
  "fetchApi env svc ep ps ua 2 tr = fetchApi2 env svc ep ps ua tr"
  by (subst fetchApi.simps) (simp add: fetchApi2_def Let_def split: outcome.splits option.splits)

lemma fetchApi_no_429:
  assumes "parse_url env (endpoint_url svc ep) = Some u"
    and "\<forall>r. respond env tr (make_request u svc ps ua) = Response r \<longrightarrow> status r \<noteq> 429"
  shows "fetchApi env svc ep ps ua k tr = fetchApi2 env svc ep ps ua tr"
  using assms
  by (subst fetchApi.simps) (auto simp: fetchApi2_def Let_def split: outcome.splits)

lemma fetchApi_429:
  assumes "parse_url env (endpoint_url svc ep) = Some u"
    and "respond env tr (make_request u svc ps ua) = Response r" "status r = 429" "k < 2"
  shows "fetchApi env svc ep ps ua k tr =
         fetchApi env svc ep ps ua (Suc k)
           (tr @ [Fetch (make_request u svc ps ua) (Response r),
                  Warn (RateLimitHit (waitTime r k)), Sleep (waitTime r k)])"
  using assms by (subst fetchApi.simps) (simp add: Let_def)

lemma fetchApi2_429:
  assumes "parse_url env (endpoint_url svc ep) = Some u"
    and "respond env tr (make_request u svc ps ua) = Response r" "status r = 429"
  shows "fetchApi2 env svc ep ps ua tr =
           (Inl (http_error r), tr @ [Fetch (make_request u svc ps ua) (Response r)])"
  using assms by (simp add: fetchApi2_def Let_def ok_def)

lemma fetchApi_exchange:
  assumes "parse_url env (endpoint_url svc ep) = Some u"
  shows "\<exists>evs os. snd (fetchApi env svc ep ps ua k tr) = tr @ evs
      \<and> fetches evs = map (Pair (make_request u svc ps ua)) os
      \<and> os \<noteq> [] \<and> length os \<le> Suc (2 - k) \<and> list_all is_429 (butlast os)
      \<and> fst (fetchApi env svc ep ps ua k tr) = settle (last os)"
  using assms
proof (induction env svc ep ps ua k tr rule: fetchApi.induct)
  case (1 env svc ep ps ua k tr)
  note url = "1.prems"
  let ?req = "make_request u svc ps ua"
  show ?case
  proof (cases "\<exists>r. respond env tr ?req = Response r \<and> status r = 429 \<and> k < 2")
    case False
    then have "fetchApi env svc ep ps ua k tr = fetchApi2 env svc ep ps ua tr"
      using url by (subst fetchApi.simps) (auto simp: fetchApi2_def Let_def split: outcome.splits)
    then have eq: "fetchApi env svc ep ps ua k tr =
                     (settle (respond env tr ?req), tr @ [Fetch ?req (respond env tr ?req)])"
      using fetchApi2_settle[OF url] by simp
    show ?thesis
      unfolding eq
      apply (rule exI[of _ "[Fetch ?req (respond env tr ?req)]"])
      apply (rule exI[of _ "[respond env tr ?req]"])
      by simp
  next
    case True
    then obtain r where r: "respond env tr ?req = Response r" "status r = 429" "k < 2" by blast
    let ?mid = "[Fetch ?req (Response r), Warn (RateLimitHit (waitTime r k)), Sleep (waitTime r k)]"
    let ?tr' = "(tr @ [Fetch ?req (respond env tr ?req)]) @ [Warn (RateLimitHit (waitTime r k)), Sleep (waitTime r k)]"
    have eq: "fetchApi env svc ep ps ua k tr = fetchApi env svc ep ps ua (k + 1) ?tr'"
      using r url by (subst fetchApi.simps) (simp add: Let_def)
    from "1.IH"[OF url refl refl refl r(1) conjI[OF r(2,3)] url]
    obtain evs os where
      h: "snd (fetchApi env svc ep ps ua (k + 1) ?tr') = ?tr' @ evs"
         "fetches evs = map (Pair ?req) os" "os \<noteq> []" "length os \<le> Suc (2 - (k + 1))"
         "list_all is_429 (butlast os)"
         "fst (fetchApi env svc ep ps ua (k + 1) ?tr') = settle (last os)"
      by blast
    show ?thesis
      unfolding eq
      apply (rule exI[of _ "?mid @ evs"])
      apply (rule exI[of _ "Response r # os"])
      using h r by simp
  qed
qed

lemma settle_Inr: "settle out = Inr v \<Longrightarrow> \<not> refused out"
  by (cases out) (auto simp: settle_def ok_def split: if_splits)

lemma settle_status:
  "settle out = Inl e \<Longrightarrow> error_status e = Some n \<Longrightarrow> \<exists>r. out = Response r \<and> status r = n"
  by (cases out) (auto simp: settle_def dest: http_error_denied split: if_splits body.splits)

lemma settle_refused:
  "refused out \<Longrightarrow> \<not> null_body out \<Longrightarrow>
     \<exists>e. settle out = Inl e \<and> (error_status e = Some 403 \<or> error_status e = Some 401)"
  by (cases out) (auto simp: settle_def ok_def http_error_status)

lemma butlast_429:
  "list_all is_429 (butlast os) \<Longrightarrow> os \<noteq> [] \<Longrightarrow> \<not> is_429 (hd os) \<Longrightarrow> length os = 1"
  by (cases os) (auto split: if_splits)

lemma denied_limited_run:
  "getStatusesPage env_denied_limited svc_token ''7'' None 40 [] =
     (Inr (Some [], True),
      [Fetch req_small (Response \<lparr>status = 403, retryAfter = None,
                                   body = Parsed (Some ''This action is not allowed'') []\<rparr>),
       Fetch req_first (Response (limited None)),
       Warn (RateLimitHit (Num 1000)), Sleep (Num 1000),
       Fetch req_first (Response (ok_response []))])"
  by (simp add: run_simps env_denied_limited_def req_small_def req_first_def http_error_def
        limited_def waitTime_def exact_def requests_Cons)

lemma denied_null_run:
  "getStatusesPage env_denied_null svc_token ''7'' None 40 [] =
     (Inl TypeError, [Fetch req_small (Response \<lparr>status = 403, retryAfter = None, body = JsonNull\<rparr>)])"
  "getStatusesPage2 env_denied_null svc_token ''7'' None 40 [] =
     (Inl TypeError, [Fetch req_small (Response \<lparr>status = 403, retryAfter = None, body = JsonNull\<rparr>)])"
  by (simp_all add: run_simps env_denied_null_def req_small_def http_error_def)

lemma sleeps_simps [simp]:
  "sleeps [] = []" "sleeps (Sleep w # es) = w # sleeps es" "sleeps (Fetch req out # es) = sleeps es"
  "sleeps (Warn m # es) = sleeps es" "sleeps (Clock t # es) = sleeps es"
  "sleeps (Progress n # es) = sleeps es"
  by (simp_all add: sleeps_def)

lemma requests_Fetch [simp]: "requests (Fetch req out # es) = req # requests es"
  by (simp add: requests_Cons)

lemma digit_not_space: "digit_val c < 10 \<Longrightarrow> \<not> is_space c"
  by (auto simp: is_space_def digit_val_def)

lemma digit_not_sign: "digit_val c < 10 \<Longrightarrow> c \<noteq> CHR ''-'' \<and> c \<noteq> CHR ''+'' \<and> c \<noteq> CHR ''x'' \<and> c \<noteq> CHR ''X''"
  by (auto simp: digit_val_def)

lemma parseInt_digits:
  assumes "all_digits s"
  shows "parseInt s = exact (int (decimal_value s))"
proof -
  from assms obtain c cs where s: "s = c # cs" and c: "digit_val c < 10"
    and cs: "list_all (\<lambda>c. digit_val c < 10) cs"
    by (cases s) (auto simp: all_digits_def)
  have d: "dropWhile is_space s = s" using s c digit_not_space by simp
  have r: "(case s of a # b # cs \<Rightarrow> if a = CHR ''0'' \<and> (b = CHR ''x'' \<or> b = CHR ''X'')
                                     then (16 :: nat, cs) else (10, s)
           | _ \<Rightarrow> (10, s)) = (10, s)"
    using s cs digit_not_sign by (cases cs) auto
  have t: "takeWhile (\<lambda>c. digit_val c < 10) s = s"
    using s c cs by (simp add: list_all_iff takeWhile_eq_all_conv)
  have sg: "(case s of c # cs \<Rightarrow> if c = CHR ''-'' then (- 1 :: int, cs)
                                 else if c = CHR ''+'' then (1, cs) else (1, s)
            | [] \<Rightarrow> (1, s)) = (1, s)"
    using s c digit_not_sign by auto
  show ?thesis
    unfolding parseInt_def Let_def d sg prod.case r read_digits_def t
    using s by (simp add: decimal_value_def)
qed

lemma waitTime_header:
  "retryAfter r = Some h \<Longrightarrow> h \<noteq> [] \<Longrightarrow> waitTime r k = times_1000 (parseInt h)"
  by (simp add: waitTime_def)

lemma seconds_to_ms:
  assumes "all_digits h" "1000 * int (decimal_value h) \<le> 2 ^ 53"
  shows "times_1000 (parseInt h) = Num (1000 * int (decimal_value h))"
proof -
  have "\<bar>int (decimal_value h)\<bar> \<le> 2 ^ 53" using assms(2) by simp
  then have "parseInt h = Num (int (decimal_value h))"
    using parseInt_digits[OF assms(1)] by (simp add: exact_def)
  then show ?thesis using assms(2) by (simp add: exact_def mult.commute)
qed

lemma waitTime_backoff:
  "retryAfter r = None \<or> retryAfter r = Some [] \<Longrightarrow> waitTime r 0 = Num 1000 \<and> waitTime r 1 = Num 2000"
  by (auto simp: waitTime_def exact_def)

lemma limited_run2:
  "fetchApi2 env_limited svc_token ''accounts/7/statuses'' [(''limit'', ''40'')] True [] =
     (Inl (Error ''Too many requests'' (Some 429)),
      [Fetch req_small (Response (limited (Some ''3'')))])"
  by (simp add: run_simps env_limited_def limited_def req_small_def http_error_def)

lemma dated_run:
  "fetchApi env_dated svc_token ''accounts/7/statuses'' [(''limit'', ''40'')] True 0 [] =
     (Inl TypeError,
      [Fetch req_small (Response (limited (Some ''Wed, 21 Oct 2015 07:28:00 GMT''))),
       Warn (RateLimitHit NaN), Sleep NaN,
       Fetch req_small (Response (limited (Some []))),
       Warn (RateLimitHit (Num 2000)), Sleep (Num 2000),
       Fetch req_small (Response \<lparr>status = 429, retryAfter = None, body = JsonNull\<rparr>)])"
  by (simp add: run_simps env_dated_def limited_def req_small_def http_error_def waitTime_def
        parseInt_def read_digits_def digit_val_def is_space_def exact_def)

subsection \<open>verifyCredentials without a token\<close>

text \<open>
  Claim C9. On a service configured without a token (the field is undefined, or the
  empty string, which is as falsy), \<^verbatim>\<open>verifyCredentials\<close> throws the precondition error
  at once: the trace is returned as it was, so no HTTP request was sent and nothing was
  waited for or retried. This holds for both copies of the class.
\<close>

theorem verifyCredentials_requires_token:
  assumes "token svc = None \<or> token svc = Some []"
  shows "verifyCredentials env svc tr =
           (Inl (Error ''Token required for verifyCredentials'' None), tr)
       \<and> verifyCredentials2 env svc tr =
           (Inl (Error ''Token required for verifyCredentials'' None), tr)"
  using assms by (auto simp: verifyCredentials_def verifyCredentials2_def)

theorem verifyCredentials_requires_token_witness:
  "token svc_anon = None
   \<and> verifyCredentials (env_down :: nat env) svc_anon [] =
       (Inl (Error ''Token required for verifyCredentials'' None), [])
   \<and> verifyCredentials2 (env_down :: nat env) svc_anon [] =
       (Inl (Error ''Token required for verifyCredentials'' None), [])"
proof -
  have h: "token svc_anon = None \<or> token svc_anon = Some []"
    by (simp add: svc_anon_def)
  show ?thesis
    using verifyCredentials_requires_token [OF h, of env_down "[]"]
    by (simp add: svc_anon_def)
qed

text \<open>
  Claim C8. A page with fewer than 40 statuses (40 is the limit every page is requested
  with) is the last thing fetched: however the events of a call are cut in two, once the
  first part holds such a page the second part holds no request. The threshold date plays
  no part. This holds for both copies of the class.
\<close>

theorem undersized_page_ends_crawl:
  "(\<exists>evs. snd (getStatusesUntil env svc acc u start op tr) = tr @ evs
      \<and> (\<forall>a b. evs = a @ b \<longrightarrow> (\<exists>p\<in>set (pages a). length p < 40) \<longrightarrow> requests b = []))
   \<and> (\<exists>evs. snd (getStatusesUntil2 env svc acc u start op tr) = tr @ evs
      \<and> (\<forall>a b. evs = a @ b \<longrightarrow> (\<exists>p\<in>set (pages a). length p < 40) \<longrightarrow> requests b = []))"
proof -
  have *: "\<forall>a b. evs = a @ b \<longrightarrow> (\<exists>p\<in>set (pages a). length p < 40) \<longrightarrow> requests b = []"
    if "session_facts cap per env svc acc u start evs r" for cap per evs and r :: "error + crawl_result"
  proof (intro allI impI)
    fix a b assume "evs = a @ b" "\<exists>p\<in>set (pages a). length p < 40"
    then show "requests b = []"
      using that quiet_split[of cap u 0 a b] ended_short[of "pages a" cap u 0]
      by (simp add: session_facts_def)
  qed
  show ?thesis
    using getStatusesUntil_session[of env svc acc u start op tr]
      getStatusesUntil2_session[of env svc acc u start op tr] *
    by blast
qed

theorem undersized_page_ends_crawl_witness:
  "snd (getStatusesUntil env_small svc_token ''7'' (Some 100) None True []) =
     [Clock 0, Clock 0, Fetch req_small (Response (ok_response [post_a, post_b]))] @ [Progress 1]
   \<and> pages [Clock 0, Clock 0, Fetch req_small (Response (ok_response [post_a, post_b]))]
       = [[post_a, post_b]]
   \<and> length [post_a, post_b] < 40
   \<and> requests [Progress 1 :: mstatus list event] = []
   \<and> snd (getStatusesUntil2 env_small svc_token ''7'' (Some 100) None True []) =
     [Fetch req_small (Response (ok_response [post_a, post_b]))] @ [Progress 1]"
proof -
  let ?a = "[Clock 0, Clock 0, Fetch req_small (Response (ok_response [post_a, post_b]))]"
  let ?b = "[Progress 1 :: mstatus list event]"
  from undersized_page_ends_crawl[of env_small svc_token "''7''" "Some 100" None True "[]"]
  obtain evs where e: "snd (getStatusesUntil env_small svc_token ''7'' (Some 100) None True []) = [] @ evs"
    "\<forall>a b. evs = a @ b \<longrightarrow> (\<exists>p\<in>set (pages a). length p < 40) \<longrightarrow> requests b = []"
    by blast
  have pg: "pages ?a = [[post_a, post_b]]"
    by (simp add: pages_Cons ok_def ok_response_def)
  have "evs = ?a @ ?b" using e(1) by (simp add: small_run)
  moreover have "\<exists>p\<in>set (pages ?a). length p < 40" unfolding pg by simp
  ultimately have "requests ?b = []" using e(2) by blast
  then show ?thesis using pg by (simp add: small_run small_run2)
qed

text \<open>
  Claim C6. The statuses returned are exactly the statuses of the pages received, in the
  order received, with the reblogs filtered out; the counter \<open>totalFetched\<close> grows by the
  full size of every page, reblogs included. Both hold for both copies of the class; the
  counter is a local variable, so it is read off the loop.
\<close>

theorem accumulated_posts_are_originals_in_fetch_order:
  "(\<exists>evs. snd (getStatusesUntil env svc acc u start op tr) = tr @ evs
      \<and> (\<forall>res. fst (getStatusesUntil env svc acc u start op tr) = Inr res \<longrightarrow>
            statuses res = filter (\<lambda>p. \<not> reblog p) (concat (pages evs))))
   \<and> (\<exists>evs. snd (crawl_loop env svc acc u op st s tr) = tr @ evs
      \<and> (\<forall>s'. fst (crawl_loop env svc acc u op st s tr) = Inr s' \<longrightarrow>
            allFilteredStatuses s' =
              allFilteredStatuses s @ filter (\<lambda>p. \<not> reblog p) (concat (pages evs))
          \<and> totalFetched s' = totalFetched s + length (concat (pages evs))))
   \<and> (\<exists>evs. snd (getStatusesUntil2 env svc acc u start op tr) = tr @ evs
      \<and> (\<forall>res. fst (getStatusesUntil2 env svc acc u start op tr) = Inr res \<longrightarrow>
            statuses res = filter (\<lambda>p. \<not> reblog p) (concat (pages evs))))
   \<and> (\<exists>evs. snd (crawl_loop2 env svc acc u op s2 tr) = tr @ evs
      \<and> (\<forall>s'. fst (crawl_loop2 env svc acc u op s2 tr) = Inr s' \<longrightarrow>
            allFilteredStatuses s' =
              allFilteredStatuses s2 @ filter (\<lambda>p. \<not> reblog p) (concat (pages evs))
          \<and> totalFetched s' = totalFetched s2 + length (concat (pages evs))))"
proof (intro conjI)
  show "\<exists>evs. snd (getStatusesUntil env svc acc u start op tr) = tr @ evs
      \<and> (\<forall>res. fst (getStatusesUntil env svc acc u start op tr) = Inr res \<longrightarrow>
            statuses res = filter (\<lambda>p. \<not> reblog p) (concat (pages evs)))"
    using getStatusesUntil_session[of env svc acc u start op tr]
    unfolding session_facts_def by blast
  show "\<exists>evs. snd (getStatusesUntil2 env svc acc u start op tr) = tr @ evs
      \<and> (\<forall>res. fst (getStatusesUntil2 env svc acc u start op tr) = Inr res \<longrightarrow>
            statuses res = filter (\<lambda>p. \<not> reblog p) (concat (pages evs)))"
    using getStatusesUntil2_session[of env svc acc u start op tr]
    unfolding session_facts_def by blast
  show "\<exists>evs. snd (crawl_loop env svc acc u op st s tr) = tr @ evs
      \<and> (\<forall>s'. fst (crawl_loop env svc acc u op st s tr) = Inr s' \<longrightarrow>
            allFilteredStatuses s' =
              allFilteredStatuses s @ filter (\<lambda>p. \<not> reblog p) (concat (pages evs))
          \<and> totalFetched s' = totalFetched s + length (concat (pages evs)))"
    using crawl_loop_summary[of env svc acc u op st s tr]
    unfolding summary_def by blast
  show "\<exists>evs. snd (crawl_loop2 env svc acc u op s2 tr) = tr @ evs
      \<and> (\<forall>s'. fst (crawl_loop2 env svc acc u op s2 tr) = Inr s' \<longrightarrow>
            allFilteredStatuses s' =
              allFilteredStatuses s2 @ filter (\<lambda>p. \<not> reblog p) (concat (pages evs))
          \<and> totalFetched s' = totalFetched s2 + length (concat (pages evs)))"
    using crawl_loop2_summary[of env svc acc u op s2 tr]
    unfolding summary_def by blast
qed

theorem accumulated_posts_are_originals_in_fetch_order_witness:
  "fst (getStatusesUntil env_small svc_token ''7'' (Some 100) None True []) =
     Inr \<lparr>statuses = [post_a], lastId = Some ''102'', reachedThreshold = False, fellBack = False\<rparr>
   \<and> pages (snd (getStatusesUntil env_small svc_token ''7'' (Some 100) None True []))
       = [[post_a, post_b]]
   \<and> [post_a] = filter (\<lambda>p. \<not> reblog p) (concat [[post_a, post_b]])
   \<and> totalFetched (projr (fst (crawl_loop env_small svc_token ''7'' (Some 100) True 0
                                  (initial_session None) []))) = 2"
proof -
  let ?G = "getStatusesUntil env_small svc_token ''7'' (Some 100) None True []"
  let ?L = "crawl_loop env_small svc_token ''7'' (Some 100) True 0 (initial_session None) []"
  note th = accumulated_posts_are_originals_in_fetch_order
              [of env_small svc_token "''7''" "Some 100" None True "[]" 0 "initial_session None"]
  have pg: "pages (snd ?G) = [[post_a, post_b]]"
    by (simp add: small_run pages_Cons ok_def ok_response_def)
  from th obtain evs where e: "snd ?G = [] @ evs"
    "\<forall>res. fst ?G = Inr res \<longrightarrow> statuses res = filter (\<lambda>p. \<not> reblog p) (concat (pages evs))"
    by blast
  have f: "fst ?G = Inr \<lparr>statuses = [post_a], lastId = Some ''102'', reachedThreshold = False, fellBack = False\<rparr>"
    by (simp add: small_run)
  have one: "[post_a] = filter (\<lambda>p. \<not> reblog p) (concat [[post_a, post_b]])"
    using e f pg by auto
  from th obtain evs' where e': "snd ?L = [] @ evs'"
    "\<forall>s'. fst ?L = Inr s' \<longrightarrow> totalFetched s' = totalFetched (initial_session None) + length (concat (pages evs'))"
    by blast
  have L: "?L = (Inr (process_batch (Some 100) (initial_session None) [post_a, post_b] False),
                 [Clock 0, Fetch req_small (Response (ok_response [post_a, post_b])), Progress 1])"
    by (simp add: run_simps env_small_def req_small_def post_a_def post_b_def
                  process_batch_def note_fallback_def initial_session_def)
  have "totalFetched (projr (fst ?L)) = 2"
    using e' L by (simp add: pages_Cons ok_def ok_response_def)
  then show ?thesis using f pg one by simp
qed

text \<open>
  Claim C10. When the first page received is empty, the cursor returned is the cursor
  passed in (\<open>None\<close> when none was passed): an empty page leaves \<open>maxId\<close> alone and ends
  the loop. This holds for both copies of the class.
\<close>

theorem empty_first_page_keeps_cursor:
  "(\<exists>evs. snd (getStatusesUntil env svc acc u start op tr) = tr @ evs
      \<and> (\<forall>res ps. fst (getStatusesUntil env svc acc u start op tr) = Inr res \<longrightarrow>
            pages evs = [] # ps \<longrightarrow> lastId res = start))
   \<and> (\<exists>evs. snd (getStatusesUntil2 env svc acc u start op tr) = tr @ evs
      \<and> (\<forall>res ps. fst (getStatusesUntil2 env svc acc u start op tr) = Inr res \<longrightarrow>
            pages evs = [] # ps \<longrightarrow> lastId res = start))"
proof -
  have *: "\<forall>res ps. r = Inr res \<longrightarrow> pages evs = [] # ps \<longrightarrow> lastId res = start"
    if sf: "session_facts cap per env svc acc u start evs r" for cap per evs r
  proof (intro allI impI)
    fix res ps assume r: "r = Inr res" and p: "pages evs = [] # ps"
    have "quiet_after_end cap u 0 False evs" using sf by (simp add: session_facts_def)
    from quiet_pages(2)[OF this, of "[]" "[]" ps] p have "ps = []"
      by (simp add: ends_crawl_def)
    moreover have "lastId res = cursor_after start (pages evs)"
      using sf r by (simp add: session_facts_def)
    ultimately show "lastId res = start" using p by simp
  qed
  show ?thesis
    using getStatusesUntil_session[of env svc acc u start op tr]
      getStatusesUntil2_session[of env svc acc u start op tr] *
    by blast
qed

theorem empty_first_page_keeps_cursor_witness:
  "fst (getStatusesUntil env_denied svc_token ''7'' (Some 100) None False []) =
     Inr \<lparr>statuses = [], lastId = None, reachedThreshold = False, fellBack = True\<rparr>
   \<and> pages (snd (getStatusesUntil env_denied svc_token ''7'' (Some 100) None False [])) = [[]]
   \<and> lastId \<lparr>statuses = [], lastId = None, reachedThreshold = False, fellBack = True\<rparr> = None
   \<and> fst (getStatusesUntil2 env_denied svc_token ''7'' (Some 100) None False []) =
     Inr \<lparr>statuses = [], lastId = None, reachedThreshold = False, fellBack = True\<rparr>
   \<and> pages (snd (getStatusesUntil2 env_denied svc_token ''7'' (Some 100) None False [])) = [[]]"
proof -
  let ?G = "getStatusesUntil env_denied svc_token ''7'' (Some 100) None False []"
  let ?G2 = "getStatusesUntil2 env_denied svc_token ''7'' (Some 100) None False []"
  have pg: "pages (snd ?G) = [] # []" "pages (snd ?G2) = [] # []"
    by (simp_all add: env_denied_run env_denied_run2 pages_Cons ok_def ok_response_def)
  from empty_first_page_keeps_cursor[of env_denied svc_token "''7''" "Some 100" None False "[]"]
  obtain evs where e: "snd ?G = [] @ evs"
    "\<forall>res ps. fst ?G = Inr res \<longrightarrow> pages evs = [] # ps \<longrightarrow> lastId res = None"
    by blast
  have "lastId \<lparr>statuses = [], lastId = None, reachedThreshold = False, fellBack = True\<rparr> = None"
    using e pg(1) by (auto simp: env_denied_run)
  then show ?thesis using pg by (simp add: env_denied_run env_denied_run2)
qed

text \<open>
  Claim C2, as it stands, fails: when the first page is fetched through the permission
  fallback (the authenticated request is answered 403, the unauthenticated one returns an
  empty page), the result has \<open>fellBack = True\<close>, because \<^verbatim>\<open>wasFellBack\<close> is set
  before the empty page is looked at.
\<close>

theorem empty_first_page_after_fallback_counterexample:
  "fst (getStatusesUntil env_denied svc_token ''7'' (Some 100) None False []) =
     Inr \<lparr>statuses = [], lastId = None, reachedThreshold = False, fellBack = True\<rparr>
   \<and> pages (snd (getStatusesUntil env_denied svc_token ''7'' (Some 100) None False [])) = [[]]"
  by (simp add: env_denied_run pages_Cons ok_def ok_response_def)

text \<open>
  Claim C2, amended. When the first page received is empty, the result has no statuses
  and \<open>reachedThreshold = False\<close>, and \<open>fellBack\<close> tells whether that page was fetched
  through the fallback: it is true exactly when a request of the call was answered 401 or
  403. This holds for both copies of the class.
\<close>

theorem empty_first_page_result:
  "(\<exists>evs. snd (getStatusesUntil env svc acc u start op tr) = tr @ evs
      \<and> (\<forall>res ps. fst (getStatusesUntil env svc acc u start op tr) = Inr res \<longrightarrow>
            pages evs = [] # ps \<longrightarrow>
            statuses res = [] \<and> \<not> reachedThreshold res
            \<and> fellBack res = (\<exists>x\<in>set evs. denied x)))
   \<and> (\<exists>evs. snd (getStatusesUntil2 env svc acc u start op tr) = tr @ evs
      \<and> (\<forall>res ps. fst (getStatusesUntil2 env svc acc u start op tr) = Inr res \<longrightarrow>
            pages evs = [] # ps \<longrightarrow>
            statuses res = [] \<and> \<not> reachedThreshold res
            \<and> fellBack res = (\<exists>x\<in>set evs. denied x)))"
proof -
  have *: "\<forall>res ps. r = Inr res \<longrightarrow> pages evs = [] # ps \<longrightarrow>
             statuses res = [] \<and> \<not> reachedThreshold res \<and> fellBack res = (\<exists>x\<in>set evs. denied x)"
    if sf: "session_facts cap per env svc acc u start evs r" for cap per evs r
  proof (intro allI impI)
    fix res ps assume r: "r = Inr res" and p: "pages evs = [] # ps"
    have "quiet_after_end cap u 0 False evs" using sf by (simp add: session_facts_def)
    from quiet_pages(2)[OF this, of "[]" "[]" ps] p have "ps = []"
      by (simp add: ends_crawl_def)
    then have "pages evs = [[]]" using p by simp
    then show "statuses res = [] \<and> \<not> reachedThreshold res \<and> fellBack res = (\<exists>x\<in>set evs. denied x)"
      using sf r by (simp add: session_facts_def)
  qed
  show ?thesis
    using getStatusesUntil_session[of env svc acc u start op tr]
      getStatusesUntil2_session[of env svc acc u start op tr] *
    by blast
qed

theorem empty_first_page_result_witness:
  "pages (snd (getStatusesUntil env_denied svc_token ''7'' (Some 100) None False [])) = [[]]
   \<and> fst (getStatusesUntil env_denied svc_token ''7'' (Some 100) None False []) =
       Inr \<lparr>statuses = [], lastId = None, reachedThreshold = False, fellBack = True\<rparr>
   \<and> (\<exists>x\<in>set (snd (getStatusesUntil env_denied svc_token ''7'' (Some 100) None False [])). denied x)
   \<and> pages (snd (getStatusesUntil2 env_denied svc_token ''7'' (Some 100) None False [])) = [[]]
   \<and> (\<exists>x\<in>set (snd (getStatusesUntil2 env_denied svc_token ''7'' (Some 100) None False [])). denied x)"
proof -
  let ?G = "getStatusesUntil env_denied svc_token ''7'' (Some 100) None False []"
  let ?G2 = "getStatusesUntil2 env_denied svc_token ''7'' (Some 100) None False []"
  note th = empty_first_page_result[of env_denied svc_token "''7''" "Some 100" None False "[]"]
  have pg: "pages (snd ?G) = [] # []" "pages (snd ?G2) = [] # []"
    by (simp_all add: env_denied_run env_denied_run2 pages_Cons ok_def ok_response_def)
  have f: "fst ?G = Inr \<lparr>statuses = [], lastId = None, reachedThreshold = False, fellBack = True\<rparr>"
    "fst ?G2 = Inr \<lparr>statuses = [], lastId = None, reachedThreshold = False, fellBack = True\<rparr>"
    by (simp_all add: env_denied_run env_denied_run2)
  from th obtain evs where e: "snd ?G = [] @ evs"
    "\<forall>res ps. fst ?G = Inr res \<longrightarrow> pages evs = [] # ps \<longrightarrow>
       statuses res = [] \<and> \<not> reachedThreshold res \<and> fellBack res = (\<exists>x\<in>set evs. denied x)"
    by blast
  from th obtain evs2 where e2: "snd ?G2 = [] @ evs2"
    "\<forall>res ps. fst ?G2 = Inr res \<longrightarrow> pages evs2 = [] # ps \<longrightarrow>
       statuses res = [] \<and> \<not> reachedThreshold res \<and> fellBack res = (\<exists>x\<in>set evs2. denied x)"
    by blast
  have "\<exists>x\<in>set (snd ?G). denied x" using e f(1) pg(1) by fastforce
  moreover have "\<exists>x\<in>set (snd ?G2). denied x" using e2 f(2) pg(2) by fastforce
  ultimately show ?thesis using pg f by simp
qed

text \<open>
  Claim C5, as it stands, fails: on an account whose statuses are all dated after
  \<open>untilDate\<close> no page ever has an oldest status before it, so \<open>reachedThreshold\<close> is
  returned false. Here both statuses (dated 300 and 200) are after the date 100.
\<close>

theorem threshold_before_first_post_counterexample:
  "date_lt (Some 100) (created_at post_a) \<and> date_lt (Some 100) (created_at post_b)
   \<and> pages (snd (getStatusesUntil env_small svc_token ''7'' (Some 100) None True []))
       = [[post_a, post_b]]
   \<and> fst (getStatusesUntil env_small svc_token ''7'' (Some 100) None True []) =
       Inr \<lparr>statuses = [post_a], lastId = Some ''102'', reachedThreshold = False,
            fellBack = False\<rparr>"
  by (simp add: small_run pages_Cons ok_def ok_response_def post_a_def post_b_def)

text \<open>
  Claim C5, amended. Every call ends after a bounded number of fetches: at most 126 pages
  and 756 HTTP requests in the first copy of the class, at most 251 pages and 502 requests
  in the second (the loops are total functions). When every status received is dated
  after \<open>untilDate\<close>, the call, if it returns, returns \<open>reachedThreshold = False\<close>.
\<close>

theorem threshold_before_first_post:
  "(\<exists>evs. snd (getStatusesUntil env svc acc u start op tr) = tr @ evs
      \<and> length (pages evs) \<le> 126 \<and> length (requests evs) \<le> 756
      \<and> ((\<forall>p\<in>set (pages evs). \<forall>x\<in>set p. date_lt u (created_at x)) \<longrightarrow>
           (\<forall>res. fst (getStatusesUntil env svc acc u start op tr) = Inr res \<longrightarrow>
              \<not> reachedThreshold res)))
   \<and> (\<exists>evs. snd (getStatusesUntil2 env svc acc u start op tr) = tr @ evs
      \<and> length (pages evs) \<le> 251 \<and> length (requests evs) \<le> 502
      \<and> ((\<forall>p\<in>set (pages evs). \<forall>x\<in>set p. date_lt u (created_at x)) \<longrightarrow>
           (\<forall>res. fst (getStatusesUntil2 env svc acc u start op tr) = Inr res \<longrightarrow>
              \<not> reachedThreshold res)))"
proof -
  have asym: "date_lt a b \<Longrightarrow> \<not> date_lt b a" for a b
    by (cases a; cases b) auto
  have *: "(\<forall>p\<in>set (pages evs). \<forall>x\<in>set p. date_lt u (created_at x)) \<longrightarrow>
             (\<forall>res. r = Inr res \<longrightarrow> \<not> reachedThreshold res)"
    if sf: "session_facts cap per env svc acc u start evs r" for cap per evs r
  proof (intro allI impI)
    fix res assume a: "\<forall>p\<in>set (pages evs). \<forall>x\<in>set p. date_lt u (created_at x)" and r: "r = Inr res"
    have "\<not> (\<exists>p\<in>set (pages evs). p \<noteq> [] \<and> date_lt (created_at (last p)) u)"
      using a asym by (metis last_in_set)
    then show "\<not> reachedThreshold res" using sf r by (simp add: session_facts_def)
  qed
  have b1: "fetch_budget 5000 0 = 126" "fetch_budget 10000 0 = 251"
    by (simp_all add: fetch_budget_def)
  have n: "length (pages evs) \<le> fetch_budget cap 0 \<and> length (requests evs) \<le> per * fetch_budget cap 0"
    if sf: "session_facts cap per env svc acc u start evs r" for cap per evs r
    using sf by (simp add: session_facts_def)
  from getStatusesUntil_session[of env svc acc u start op tr]
  obtain evs where e: "snd (getStatusesUntil env svc acc u start op tr) = tr @ evs"
    "session_facts 5000 6 env svc acc u start evs (fst (getStatusesUntil env svc acc u start op tr))"
    by blast
  from getStatusesUntil2_session[of env svc acc u start op tr]
  obtain evs2 where e2: "snd (getStatusesUntil2 env svc acc u start op tr) = tr @ evs2"
    "session_facts 10000 2 env svc acc u start evs2 (fst (getStatusesUntil2 env svc acc u start op tr))"
    by blast
  have "length (pages evs) \<le> 126 \<and> length (requests evs) \<le> 756"
    using n[OF e(2)] b1 by simp
  moreover have "length (pages evs2) \<le> 251 \<and> length (requests evs2) \<le> 502"
    using n[OF e2(2)] b1 by simp
  ultimately show ?thesis using e(1) e2(1) *[OF e(2)] *[OF e2(2)] by blast
qed

theorem threshold_before_first_post_witness:
  "pages (snd (getStatusesUntil env_small svc_token ''7'' (Some 100) None True []))
       = [[post_a, post_b]]
   \<and> date_lt (Some 100) (created_at post_a) \<and> date_lt (Some 100) (created_at post_b)
   \<and> \<not> reachedThreshold (projr (fst (getStatusesUntil env_small svc_token ''7'' (Some 100) None True [])))
   \<and> \<not> reachedThreshold (projr (fst (getStatusesUntil2 env_small svc_token ''7'' (Some 100) None True [])))"
proof -
  let ?G = "getStatusesUntil env_small svc_token ''7'' (Some 100) None True []"
  let ?G2 = "getStatusesUntil2 env_small svc_token ''7'' (Some 100) None True []"
  note th = threshold_before_first_post[of env_small svc_token "''7''" "Some 100" None True "[]"]
  have d: "date_lt (Some 100) (created_at post_a)" "date_lt (Some 100) (created_at post_b)"
    by (simp_all add: post_a_def post_b_def)
  have pg: "pages (snd ?G) = [[post_a, post_b]]" "pages (snd ?G2) = [[post_a, post_b]]"
    by (simp_all add: small_run small_run2 pages_Cons ok_def ok_response_def)
  from th obtain evs where e: "snd ?G = [] @ evs"
    "(\<forall>p\<in>set (pages evs). \<forall>x\<in>set p. date_lt (Some 100) (created_at x)) \<longrightarrow>
       (\<forall>res. fst ?G = Inr res \<longrightarrow> \<not> reachedThreshold res)"
    by blast
  from th obtain evs2 where e2: "snd ?G2 = [] @ evs2"
    "(\<forall>p\<in>set (pages evs2). \<forall>x\<in>set p. date_lt (Some 100) (created_at x)) \<longrightarrow>
       (\<forall>res. fst ?G2 = Inr res \<longrightarrow> \<not> reachedThreshold res)"
    by blast
  have "\<forall>p\<in>set (pages evs). \<forall>x\<in>set p. date_lt (Some 100) (created_at x)"
    using e(1) pg(1) d by auto
  then have r1: "\<not> reachedThreshold (projr (fst ?G))"
    using e(2) by (simp add: small_run)
  have "\<forall>p\<in>set (pages evs2). \<forall>x\<in>set p. date_lt (Some 100) (created_at x)"
    using e2(1) pg(2) d by auto
  then have r2: "\<not> reachedThreshold (projr (fst ?G2))"
    using e2(2) by (simp add: small_run2)
  show ?thesis using pg d r1 r2 by simp
qed

text \<open>
  Claim C1, as it stands, fails. In the second copy of the class, on an account of 10040
  statuses, the 251st page brings \<open>totalFetched\<close> to 10040, above the cap 10000, and its
  oldest status (dated 1) is before \<open>untilDate\<close> (2): the loop stops with
  \<open>reachedThreshold = True\<close>, since the date is compared before the cap.
\<close>

theorem cap_and_threshold_on_same_page_counterexample:
  "fst (getStatusesUntil2 env_long svc_anon ''7'' (Some 2) None False []) =
     Inr \<lparr>statuses = concat (map page_at [0..<251]), lastId = Some (id_str (post_no 10039)),
          reachedThreshold = True, fellBack = False\<rparr>
   \<and> length (concat (pages (snd (getStatusesUntil2 env_long svc_anon ''7'' (Some 2) None False []))))
       = 10040
   \<and> created_at (post_no 10039) = Some 1"
  by (simp add: long_result long_total post_no_def)

text \<open>
  Claim C1, amended. Once the pages received hold more statuses than the cap (5000 in the
  first copy of the class, 10000 in the second) no further request is sent; and the
  \<open>reachedThreshold\<close> returned then tells whether the oldest status of that last page is
  dated before \<open>untilDate\<close>: the cap does not reset it.
\<close>

theorem cap_ends_crawl:
  "(\<exists>evs. snd (getStatusesUntil env svc acc u start op tr) = tr @ evs
      \<and> (\<forall>a b. evs = a @ b \<longrightarrow> 5000 < length (concat (pages a)) \<longrightarrow> requests b = [])
      \<and> (\<forall>res. fst (getStatusesUntil env svc acc u start op tr) = Inr res \<longrightarrow>
            5000 < length (concat (pages evs)) \<longrightarrow>
            pages evs \<noteq> [] \<and> last (pages evs) \<noteq> []
            \<and> reachedThreshold res = date_lt (created_at (last (last (pages evs)))) u))
   \<and> (\<exists>evs. snd (getStatusesUntil2 env svc acc u start op tr) = tr @ evs
      \<and> (\<forall>a b. evs = a @ b \<longrightarrow> 10000 < length (concat (pages a)) \<longrightarrow> requests b = [])
      \<and> (\<forall>res. fst (getStatusesUntil2 env svc acc u start op tr) = Inr res \<longrightarrow>
            10000 < length (concat (pages evs)) \<longrightarrow>
            pages evs \<noteq> [] \<and> last (pages evs) \<noteq> []
            \<and> reachedThreshold res = date_lt (created_at (last (last (pages evs)))) u))"
proof -
  have *: "(\<forall>a b. evs = a @ b \<longrightarrow> cap < length (concat (pages a)) \<longrightarrow> requests b = [])
         \<and> (\<forall>res. r = Inr res \<longrightarrow> cap < length (concat (pages evs)) \<longrightarrow>
              pages evs \<noteq> [] \<and> last (pages evs) \<noteq> []
              \<and> reachedThreshold res = date_lt (created_at (last (last (pages evs)))) u)"
    if sf: "session_facts cap per env svc acc u start evs r" for cap per evs r
  proof (intro conjI allI impI)
    fix a b assume "evs = a @ b" "cap < length (concat (pages a))"
    then show "requests b = []"
      using sf quiet_split[of cap u 0 a b] ended_cap[of cap 0 "pages a" u]
      by (simp add: session_facts_def)
  next
    fix res assume r: "r = Inr res" and c: "cap < length (concat (pages evs))"
    have q: "quiet_after_end cap u 0 False evs" using sf by (simp add: session_facts_def)
    note l = reached_by_last_page[OF q c]
    show "pages evs \<noteq> []" "last (pages evs) \<noteq> []" using l by simp_all
    show "reachedThreshold res = date_lt (created_at (last (last (pages evs)))) u"
      using sf r l by (simp add: session_facts_def)
  qed
  from getStatusesUntil_session[of env svc acc u start op tr]
  obtain evs where e: "snd (getStatusesUntil env svc acc u start op tr) = tr @ evs"
    "session_facts 5000 6 env svc acc u start evs (fst (getStatusesUntil env svc acc u start op tr))"
    by blast
  from getStatusesUntil2_session[of env svc acc u start op tr]
  obtain evs2 where e2: "snd (getStatusesUntil2 env svc acc u start op tr) = tr @ evs2"
    "session_facts 10000 2 env svc acc u start evs2 (fst (getStatusesUntil2 env svc acc u start op tr))"
    by blast
  show ?thesis using e(1) e2(1) *[OF e(2)] *[OF e2(2)] by blast
qed

theorem cap_ends_crawl_witness:
  "5000 < length (concat (pages (snd (getStatusesUntil env_burst svc_anon ''7'' (Some 100) None False []))))
   \<and> reachedThreshold (projr (fst (getStatusesUntil env_burst svc_anon ''7'' (Some 100) None False [])))
       = date_lt (created_at post_old) (Some 100)
   \<and> 10000 < length (concat (pages (snd (getStatusesUntil2 env_long svc_anon ''7'' (Some 2) None False []))))
   \<and> reachedThreshold (projr (fst (getStatusesUntil2 env_long svc_anon ''7'' (Some 2) None False [])))
       = date_lt (created_at (last (last (pages (snd (getStatusesUntil2 env_long svc_anon ''7'' (Some 2) None False [])))))) (Some 2)"
proof -
  let ?G = "getStatusesUntil env_burst svc_anon ''7'' (Some 100) None False []"
  let ?G2 = "getStatusesUntil2 env_long svc_anon ''7'' (Some 2) None False []"
  have pg: "pages (snd ?G) = [replicate 10001 post_old]"
    by (simp add: burst_run pages_Cons ok_def ok_response_def)
  have c1: "5000 < length (concat (pages (snd ?G)))" by (simp add: pg)
  have c2: "10000 < length (concat (pages (snd ?G2)))" by (simp add: long_total)
  from cap_ends_crawl[of env_burst svc_anon "''7''" "Some 100" None False "[]"]
  obtain evs where e: "snd ?G = [] @ evs"
    "\<forall>res. fst ?G = Inr res \<longrightarrow> 5000 < length (concat (pages evs)) \<longrightarrow>
        pages evs \<noteq> [] \<and> last (pages evs) \<noteq> []
        \<and> reachedThreshold res = date_lt (created_at (last (last (pages evs)))) (Some 100)"
    by blast
  from cap_ends_crawl[of env_long svc_anon "''7''" "Some 2" None False "[]"]
  obtain evs2 where e2: "snd ?G2 = [] @ evs2"
    "\<forall>res. fst ?G2 = Inr res \<longrightarrow> 10000 < length (concat (pages evs2)) \<longrightarrow>
        pages evs2 \<noteq> [] \<and> last (pages evs2) \<noteq> []
        \<and> reachedThreshold res = date_lt (created_at (last (last (pages evs2)))) (Some 2)"
    by blast
  have r1: "reachedThreshold (projr (fst ?G)) = date_lt (created_at (last (last (pages (snd ?G))))) (Some 100)"
    using e c1 by (auto simp: burst_run)
  have r2: "reachedThreshold (projr (fst ?G2)) = date_lt (created_at (last (last (pages (snd ?G2))))) (Some 2)"
    using e2 c2 by (auto simp: long_result)
  show ?thesis using c1 c2 r1 r2 by (simp add: pg)
qed



text \<open>
  Claim C3, as it stands, fails in two ways. In the first copy of the class the
  unauthenticated request goes through the retry of \<^verbatim>\<open>fetchApi\<close>: answered 429, it is
  sent again, so more than one unauthenticated request is issued. And a 403 whose body is
  the JSON value \<^verbatim>\<open>null\<close> makes \<^verbatim>\<open>fetchApi\<close> throw a \<^verbatim>\<open>TypeError\<close> with no status: no
  unauthenticated request follows, in either copy.
\<close>

theorem fallback_request_repeated_counterexample:
  "getStatusesPage env_denied_limited svc_token ''7'' None 40 [] =
     (Inr (Some [], True),
      [Fetch req_small (Response \<lparr>status = 403, retryAfter = None,
                                   body = Parsed (Some ''This action is not allowed'') []\<rparr>),
       Fetch req_first (Response (limited None)),
       Warn (RateLimitHit (Num 1000)), Sleep (Num 1000),
       Fetch req_first (Response (ok_response []))])
   \<and> requests (snd (getStatusesPage env_denied_limited svc_token ''7'' None 40 []))
       = [req_small, req_first, req_first]
   \<and> map_of (headers req_first) ''Authorization'' = None
   \<and> getStatusesPage env_denied_null svc_token ''7'' None 40 [] =
       (Inl TypeError,
        [Fetch req_small (Response \<lparr>status = 403, retryAfter = None, body = JsonNull\<rparr>)])
   \<and> getStatusesPage2 env_denied_null svc_token ''7'' None 40 [] =
       (Inl TypeError,
        [Fetch req_small (Response \<lparr>status = 403, retryAfter = None, body = JsonNull\<rparr>)])"
  by (simp add: denied_limited_run denied_null_run req_first_def requests_Cons)

text \<open>
  Claim C3, amended. The requests of one call of \<^verbatim>\<open>getStatusesPage\<close> are the
  authenticated request, sent up to three times in the first copy (once in the second),
  then the request without \<^verbatim>\<open>Authorization\<close>, with the same URL and parameters, sent up
  to three times in the first copy (at most once in the second); a request is repeated
  only after an answer 429. When the last authenticated answer has status 401 or 403 and a
  body other than \<^verbatim>\<open>null\<close>, the unauthenticated request is sent, exactly once unless it is
  answered 429, and the call returns what the request layer makes of its last answer, with
  \<open>fellBack\<close> true. When the last authenticated answer has another status, or \<^verbatim>\<open>fetch\<close>
  is rejected, no unauthenticated request is sent and the call returns what the request
  layer makes of that answer: its error unchanged, or its body with \<open>fellBack\<close> false.
\<close>

theorem fallback_on_permission_error:
  assumes url: "parse_url env (endpoint_url svc (''accounts/'' @ acc @ ''/statuses'')) = Some u"
  shows
  "(\<exists>evs ps oa ou.
      snd (getStatusesPage env svc acc c limit tr) = tr @ evs
    \<and> fetches evs = map (Pair (make_request u svc ps True)) oa
                   @ map (Pair (make_request u svc ps False)) ou
    \<and> (limit < 10 ^ 21 \<longrightarrow> ps = page_params c limit)
    \<and> oa \<noteq> [] \<and> length oa \<le> 3 \<and> list_all is_429 (butlast oa)
    \<and> length ou \<le> 3 \<and> list_all is_429 (butlast ou)
    \<and> (refused (last oa) \<and> \<not> null_body (last oa) \<longrightarrow> ou \<noteq> [])
    \<and> (ou \<noteq> [] \<longrightarrow> refused (last oa))
    \<and> (ou \<noteq> [] \<and> \<not> is_429 (hd ou) \<longrightarrow> length ou = 1)
    \<and> fst (getStatusesPage env svc acc c limit tr) =
        (if ou = [] then map_sum (\<lambda>e. e) (\<lambda>v. (v, False)) (settle (last oa))
         else map_sum (\<lambda>e. e) (\<lambda>v. (v, True)) (settle (last ou))))
   \<and> (\<exists>evs ps a ou.
      snd (getStatusesPage2 env svc acc c limit tr) = tr @ evs
    \<and> fetches evs = (make_request u svc ps True, a) # map (Pair (make_request u svc ps False)) ou
    \<and> (limit < 10 ^ 21 \<longrightarrow> ps = page_params c limit)
    \<and> length ou \<le> 1
    \<and> (refused a \<and> \<not> null_body a \<longrightarrow> ou \<noteq> [])
    \<and> (ou \<noteq> [] \<longrightarrow> refused a)
    \<and> fst (getStatusesPage2 env svc acc c limit tr) =
        (if ou = [] then map_sum (\<lambda>e. e) (\<lambda>v. (v, False)) (settle a)
         else map_sum (\<lambda>e. e) (\<lambda>v. (v, True)) (settle (last ou))))
   \<and> url (make_request u svc qs False) = url (make_request u svc qs True)
   \<and> searchParams (make_request u svc qs False) = searchParams (make_request u svc qs True)
   \<and> map_of (headers (make_request u svc qs False)) ''Authorization'' = None"
proof -
  let ?ep = "''accounts/'' @ acc @ ''/statuses''"
  let ?ps = "page_params c limit"
  let ?rqA = "make_request u svc ?ps True"
  let ?rqU = "make_request u svc ?ps False"
  let ?flag = "\<lambda>b. map_sum (\<lambda>e. e) (\<lambda>v. (v, b))"
  have first: "\<exists>evs ps oa ou.
      snd (getStatusesPage env svc acc c limit tr) = tr @ evs
    \<and> fetches evs = map (Pair (make_request u svc ps True)) oa
                   @ map (Pair (make_request u svc ps False)) ou
    \<and> (limit < 10 ^ 21 \<longrightarrow> ps = page_params c limit)
    \<and> oa \<noteq> [] \<and> length oa \<le> 3 \<and> list_all is_429 (butlast oa)
    \<and> length ou \<le> 3 \<and> list_all is_429 (butlast ou)
    \<and> (refused (last oa) \<and> \<not> null_body (last oa) \<longrightarrow> ou \<noteq> [])
    \<and> (ou \<noteq> [] \<longrightarrow> refused (last oa))
    \<and> (ou \<noteq> [] \<and> \<not> is_429 (hd ou) \<longrightarrow> length ou = 1)
    \<and> fst (getStatusesPage env svc acc c limit tr) =
        (if ou = [] then ?flag False (settle (last oa)) else ?flag True (settle (last ou)))"
  proof -
    from fetchApi_exchange[OF url, of ?ps True 0 tr]
    obtain evs1 os1 where
      x1: "snd (fetchApi env svc ?ep ?ps True 0 tr) = tr @ evs1"
          "fetches evs1 = map (Pair ?rqA) os1" "os1 \<noteq> []" "length os1 \<le> 3"
          "list_all is_429 (butlast os1)"
          "fst (fetchApi env svc ?ep ?ps True 0 tr) = settle (last os1)"
      by auto
    have f1: "fetchApi env svc ?ep ?ps True 0 tr = (settle (last os1), tr @ evs1)"
      using x1(1,6) by (simp add: prod_eq_iff)
    show ?thesis
    proof (cases "\<exists>e. settle (last os1) = Inl e
                     \<and> (error_status e = Some 403 \<or> error_status e = Some 401)")
      case True
      then obtain e where e: "settle (last os1) = Inl e"
          "error_status e = Some 403 \<or> error_status e = Some 401" by blast
      from fetchApi_exchange[OF url, of ?ps False 0 "tr @ evs1"]
      obtain evs2 os2 where
        x2: "snd (fetchApi env svc ?ep ?ps False 0 (tr @ evs1)) = (tr @ evs1) @ evs2"
            "fetches evs2 = map (Pair ?rqU) os2" "os2 \<noteq> []" "length os2 \<le> 3"
            "list_all is_429 (butlast os2)"
            "fst (fetchApi env svc ?ep ?ps False 0 (tr @ evs1)) = settle (last os2)"
        by auto
      have f2: "fetchApi env svc ?ep ?ps False 0 (tr @ evs1) = (settle (last os2), tr @ evs1 @ evs2)"
        using x2(1,6) by (simp add: prod_eq_iff)
      have g: "getStatusesPage env svc acc c limit tr =
                 (?flag True (settle (last os2)), tr @ evs1 @ evs2)"
        using f1 f2 e by (cases "settle (last os2)") (simp_all add: getStatusesPage_def Let_def)
      have rf: "refused (last os1)"
        using settle_status[OF e(1)] e(2) by auto
      have one: "\<not> is_429 (hd os2) \<longrightarrow> length os2 = 1"
        using butlast_429[OF x2(5) x2(3)] by blast
      show ?thesis
        apply (rule exI[of _ "evs1 @ evs2"])
        apply (rule exI[of _ ?ps])
        apply (rule exI[of _ os1])
        apply (rule exI[of _ os2])
        using g x1 x2 rf one by simp
    next
      case False
      have g: "getStatusesPage env svc acc c limit tr = (?flag False (settle (last os1)), tr @ evs1)"
        using f1 False by (cases "settle (last os1)") (auto simp: getStatusesPage_def Let_def)
      have nr: "\<not> (refused (last os1) \<and> \<not> null_body (last os1))"
        using settle_refused[of "last os1"] False by blast
      show ?thesis
        apply (rule exI[of _ evs1])
        apply (rule exI[of _ ?ps])
        apply (rule exI[of _ os1])
        apply (rule exI[of _ "[]"])
        using g x1 nr by simp
    qed
  qed
  have second: "\<exists>evs ps a ou.
      snd (getStatusesPage2 env svc acc c limit tr) = tr @ evs
    \<and> fetches evs = (make_request u svc ps True, a) # map (Pair (make_request u svc ps False)) ou
    \<and> (limit < 10 ^ 21 \<longrightarrow> ps = page_params c limit)
    \<and> length ou \<le> 1
    \<and> (refused a \<and> \<not> null_body a \<longrightarrow> ou \<noteq> [])
    \<and> (ou \<noteq> [] \<longrightarrow> refused a)
    \<and> fst (getStatusesPage2 env svc acc c limit tr) =
        (if ou = [] then ?flag False (settle a) else ?flag True (settle (last ou)))"
  proof -
    let ?a = "respond env tr ?rqA"
    let ?tr1 = "tr @ [Fetch ?rqA ?a]"
    have f1: "fetchApi2 env svc ?ep ?ps True tr = (settle ?a, ?tr1)"
      by (rule fetchApi2_settle[OF url])
    show ?thesis
    proof (cases "\<exists>e. settle ?a = Inl e \<and> (error_status e = Some 403 \<or> error_status e = Some 401)")
      case True
      then obtain e where e: "settle ?a = Inl e"
          "error_status e = Some 403 \<or> error_status e = Some 401" by blast
      let ?tr2 = "?tr1 @ [Warn PermissionFallback]"
      let ?b = "respond env ?tr2 ?rqU"
      have f2: "fetchApi2 env svc ?ep ?ps False ?tr2 = (settle ?b, ?tr2 @ [Fetch ?rqU ?b])"
        by (rule fetchApi2_settle[OF url])
      have g: "getStatusesPage2 env svc acc c limit tr =
                 (?flag True (settle ?b), tr @ [Fetch ?rqA ?a, Warn PermissionFallback, Fetch ?rqU ?b])"
        using f1 f2 e by (cases "settle ?b") (simp_all add: getStatusesPage2_def Let_def)
      have rf: "refused ?a"
        using settle_status[OF e(1)] e(2) by auto
      show ?thesis
        apply (rule exI[of _ "[Fetch ?rqA ?a, Warn PermissionFallback, Fetch ?rqU ?b]"])
        apply (rule exI[of _ ?ps])
        apply (rule exI[of _ ?a])
        apply (rule exI[of _ "[?b]"])
        using g rf by simp
    next
      case False
      have g: "getStatusesPage2 env svc acc c limit tr = (?flag False (settle ?a), ?tr1)"
        using f1 False by (cases "settle ?a") (auto simp: getStatusesPage2_def Let_def)
      have nr: "\<not> (refused ?a \<and> \<not> null_body ?a)"
        using settle_refused[of ?a] False by blast
      show ?thesis
        apply (rule exI[of _ "[Fetch ?rqA ?a]"])
        apply (rule exI[of _ ?ps])
        apply (rule exI[of _ ?a])
        apply (rule exI[of _ "[]"])
        using g nr by simp
    qed
  qed
  have rq: "url (make_request u svc qs False) = url (make_request u svc qs True)"
           "searchParams (make_request u svc qs False) = searchParams (make_request u svc qs True)"
           "map_of (headers (make_request u svc qs False)) ''Authorization'' = None"
    by (simp_all add: make_request_def split: option.splits)
  from first second rq show ?thesis by (intro conjI)
qed

text \<open>
  The witness of claim C3: a 403 with an error body on the authenticated request, then one
  unauthenticated request, answered with an empty page; and a rejected \<^verbatim>\<open>fetch\<close>, after
  which nothing more is sent.
\<close>

theorem fallback_on_permission_error_witness:
  "parse_url env_denied (endpoint_url svc_token (''accounts/'' @ ''7'' @ ''/statuses''))
     = Some ''https://mastodon.example/api/v1/accounts/7/statuses''
   \<and> (40 :: nat) < 10 ^ 21
   \<and> (\<exists>oa ou.
        fetches (snd (getStatusesPage env_denied svc_token ''7'' None 40 []))
          = map (Pair req_small) oa @ map (Pair req_first) ou
      \<and> oa \<noteq> [] \<and> refused (last oa) \<and> \<not> null_body (last oa) \<and> length ou = 1
      \<and> fst (getStatusesPage env_denied svc_token ''7'' None 40 [])
          = map_sum (\<lambda>e. e) (\<lambda>v. (v, True)) (settle (last ou)))
   \<and> getStatusesPage env_denied svc_token ''7'' None 40 [] =
     (Inr (Some [], True),
      [Fetch req_small (Response \<lparr>status = 403, retryAfter = None,
                                   body = Parsed (Some ''This action is not allowed'') []\<rparr>),
       Fetch req_first (Response (ok_response []))])
   \<and> getStatusesPage2 env_denied svc_token ''7'' None 40 [] =
     (Inr (Some [], True),
      [Fetch req_small (Response \<lparr>status = 403, retryAfter = None,
                                   body = Parsed (Some ''This action is not allowed'') []\<rparr>),
       Warn PermissionFallback,
       Fetch req_first (Response (ok_response []))])
   \<and> getStatusesPage (env_down :: mstatus list env) svc_token ''7'' None 40 [] =
       (Inl NetworkFailure, [Fetch req_small Rejected])
   \<and> getStatusesPage2 (env_down :: mstatus list env) svc_token ''7'' None 40 [] =
       (Inl NetworkFailure, [Fetch req_small Rejected])"
proof -
  let ?u = "''https://mastodon.example/api/v1/accounts/7/statuses''"
  let ?r403 = "\<lparr>status = 403, retryAfter = None,
                body = Parsed (Some ''This action is not allowed'') ([] :: mstatus list)\<rparr>"
  have url: "parse_url env_denied (endpoint_url svc_token (''accounts/'' @ ''7'' @ ''/statuses'')) = Some ?u"
    by (simp add: env_denied_def endpoint_url_def svc_token_def)
  have rq: "make_request ?u svc_token (page_params None 40) True = req_small"
           "make_request ?u svc_token (page_params None 40) False = req_first"
    by (simp_all add: make_request_def svc_token_def req_small_def req_first_def page_params_def)
  have run: "getStatusesPage env_denied svc_token ''7'' None 40 [] =
     (Inr (Some [], True),
      [Fetch req_small (Response ?r403), Fetch req_first (Response (ok_response []))])"
    by (simp add: run_simps env_denied_def req_small_def req_first_def http_error_def)
  have run2: "getStatusesPage2 env_denied svc_token ''7'' None 40 [] =
     (Inr (Some [], True),
      [Fetch req_small (Response ?r403), Warn PermissionFallback,
       Fetch req_first (Response (ok_response []))])"
    by (simp add: run_simps env_denied_def req_small_def req_first_def http_error_def)
  have down: "getStatusesPage (env_down :: mstatus list env) svc_token ''7'' None 40 [] =
                (Inl NetworkFailure, [Fetch req_small Rejected])"
             "getStatusesPage2 (env_down :: mstatus list env) svc_token ''7'' None 40 [] =
                (Inl NetworkFailure, [Fetch req_small Rejected])"
    by (simp_all add: run_simps env_down_def req_small_def)
  note th = fallback_on_permission_error[OF url, of None 40 "[]"]
  from th obtain evs ps oa ou where
    x0: "snd (getStatusesPage env_denied svc_token ''7'' None 40 []) = [] @ evs"
       "fetches evs = map (Pair (make_request ?u svc_token ps True)) oa
                    @ map (Pair (make_request ?u svc_token ps False)) ou"
       "(40 :: nat) < 10 ^ 21 \<longrightarrow> ps = page_params None 40"
       "oa \<noteq> []" "list_all is_429 (butlast oa)"
       "refused (last oa) \<and> \<not> null_body (last oa) \<longrightarrow> ou \<noteq> []"
       "ou \<noteq> [] \<and> \<not> is_429 (hd ou) \<longrightarrow> length ou = 1"
       "fst (getStatusesPage env_denied svc_token ''7'' None 40 []) =
          (if ou = [] then map_sum (\<lambda>e. e) (\<lambda>v. (v, False)) (settle (last oa))
           else map_sum (\<lambda>e. e) (\<lambda>v. (v, True)) (settle (last ou)))"
    by blast
  have ps: "ps = page_params None 40" using x0(3) by simp
  note x0' = x0[unfolded ps rq]
  have
    x: "snd (getStatusesPage env_denied svc_token ''7'' None 40 []) = [] @ evs"
       "fetches evs = map (Pair req_small) oa @ map (Pair req_first) ou"
       "oa \<noteq> []" "list_all is_429 (butlast oa)"
       "refused (last oa) \<and> \<not> null_body (last oa) \<longrightarrow> ou \<noteq> []"
       "ou \<noteq> [] \<and> \<not> is_429 (hd ou) \<longrightarrow> length ou = 1"
       "fst (getStatusesPage env_denied svc_token ''7'' None 40 []) =
          (if ou = [] then map_sum (\<lambda>e. e) (\<lambda>v. (v, False)) (settle (last oa))
           else map_sum (\<lambda>e. e) (\<lambda>v. (v, True)) (settle (last ou)))"
    using x0' by simp_all
  have ne: "req_small \<noteq> req_first" by (simp add: req_small_def req_first_def)
  have ev: "evs = [Fetch req_small (Response ?r403), Fetch req_first (Response (ok_response []))]"
    using x(1) run by simp
  have fe: "map (Pair req_small) oa @ map (Pair req_first) ou =
              [(req_small, Response ?r403), (req_first, Response (ok_response []))]"
    using x(2) unfolding ev by simp
  have oa: "oa = [Response ?r403]" and ou: "ou = [Response (ok_response [])]"
  proof -
    obtain a oa' where a: "oa = a # oa'" using x(3) by (cases oa) auto
    have "oa' = []"
    proof (cases oa')
      case Nil then show ?thesis .
    next
      case (Cons b bs)
      then show ?thesis using fe a ne by auto
    qed
    then show "oa = [Response ?r403]" "ou = [Response (ok_response [])]"
      using fe a by auto
  qed
  have ex: "\<exists>oa ou.
        fetches (snd (getStatusesPage env_denied svc_token ''7'' None 40 []))
          = map (Pair req_small) oa @ map (Pair req_first) ou
      \<and> oa \<noteq> [] \<and> refused (last oa) \<and> \<not> null_body (last oa) \<and> length ou = 1
      \<and> fst (getStatusesPage env_denied svc_token ''7'' None 40 [])
          = map_sum (\<lambda>e. e) (\<lambda>v. (v, True)) (settle (last ou))"
    apply (rule exI[of _ oa])
    apply (rule exI[of _ ou])
    using x oa ou by simp
  have lim: "(40 :: nat) < 10 ^ 21" by simp
  from url lim ex run run2 down show ?thesis by (intro conjI)
qed




end
